theory Spec2Isabelle
  imports Main "HOL-Library.Sublist" "HOL-Library.AList"
begin

section \<open>Linearization engine (edb/schema/inheriting.py, \<open>_merge_mro\<close> and \<open>compute_mro\<close>)\<close>

text \<open>
  Schema objects are compared by identity in the source (\<open>id(candidate)\<close>,
  \<open>mro[0] is candidate\<close>); an entity is a value of the type variable \<open>'a\<close> and identity is
  equality on it. The only exception \<open>_merge_mro\<close> raises is the \<open>SchemaError\<close> "Could not
  find consistent ancestor order for <obj>"; it carries the entity it names. \<open>KeyError\<close> is
  the failed dictionary lookup \<open>index[ref]\<close> of the rebase command.
\<close>

datatype 'a schema_error = InconsistentOrder 'a | KeyError 'a

text \<open>
  \<open>tails = [m for m in nonempty if id(candidate) in {id(c) for c in m[1:]}]\<close>: the lists
  of \<open>nonempty\<close> (the candidate's own list among them) that hold the candidate behind
  their head.
\<close>

definition tails :: "'a list list \<Rightarrow> 'a \<Rightarrow> 'a list list" where
  "tails nonempty candidate = filter (\<lambda>m. candidate \<in> set (tl m)) nonempty"

text \<open>
  The inner \<open>for mro in nonempty: ... if not tails: break ... else: raise\<close>: the head of
  the first list whose head is in no tail, \<open>None\<close> when the loop runs to its
  \<open>else\<close> branch. Every list it visits is non-empty, so \<open>mro[0]\<close> is \<open>hd\<close>.
\<close>

fun find_candidate :: "'a list list \<Rightarrow> 'a list list \<Rightarrow> 'a option" where
  "find_candidate nonempty [] = None"
| "find_candidate nonempty (mro # rest) =
     (if tails nonempty (hd mro) = [] then Some (hd mro)
      else find_candidate nonempty rest)"

text \<open>
  \<open>for mro in nonempty: if mro[0] is candidate: del mro[0]\<close>. The lists of
  \<open>nonempty\<close> are the list objects of \<open>mros\<close>, so the deletion is an update of
  \<open>mros\<close> at its non-empty entries.
\<close>

definition del_heads :: "'a \<Rightarrow> 'a list list \<Rightarrow> 'a list list" where
  "del_heads candidate mros =
     map (\<lambda>mro. if mro \<noteq> [] \<and> hd mro = candidate then tl mro else mro) mros"

lemma find_candidate_hd:
  "find_candidate ne xs = Some c \<Longrightarrow> \<exists>m\<in>set xs. hd m = c"
  by (induction xs) (auto split: if_splits)

lemma del_heads_length_le:
  "sum_list (map length (del_heads c mros)) \<le> sum_list (map length mros)"
  by (induction mros) (auto simp: del_heads_def)

lemma del_heads_length_less:
  "m \<in> set mros \<Longrightarrow> m \<noteq> [] \<Longrightarrow> hd m = c \<Longrightarrow>
   sum_list (map length (del_heads c mros)) < sum_list (map length mros)"
proof (induction mros)
  case Nil
  then show ?case by simp
next
  case (Cons a mros)
  show ?case
  proof (cases "a \<noteq> [] \<and> hd a = c")
    case True
    have "sum_list (map length (del_heads c mros)) \<le> sum_list (map length mros)"
      by (rule del_heads_length_le)
    moreover have "del_heads c (a # mros) = tl a # del_heads c mros"
      using True by (simp add: del_heads_def)
    moreover have "length (tl a) < length a" using True by (cases a) auto
    ultimately show ?thesis by simp
  next
    case False
    then have "m \<in> set mros" using Cons.prems by auto
    from Cons.IH[OF this Cons.prems(2,3)] show ?thesis
      using False by (auto simp: del_heads_def)
  qed
qed

text \<open>
  The \<open>while True\<close> loop of \<open>_merge_mro\<close>, with the state it updates: the lists
  \<open>mros\<close> and \<open>result\<close>. Each round deletes the candidate from at least one list, so the
  loop ends: the function is total.
\<close>

function merge_mro_loop :: "'a \<Rightarrow> 'a list list \<Rightarrow> 'a list \<Rightarrow> 'a schema_error + 'a list" where
  "merge_mro_loop obj mros result =
     (let nonempty = filter (\<lambda>mro. mro \<noteq> []) mros in
      if nonempty = [] then Inr result
      else (case find_candidate nonempty nonempty of
              None \<Rightarrow> Inl (InconsistentOrder obj)
            | Some candidate \<Rightarrow>
                merge_mro_loop obj (del_heads candidate mros) (result @ [candidate])))"
  by pat_completeness auto
termination
proof (relation "measure (\<lambda>(obj, mros, result). sum_list (map length mros))")
  show "wf (measure (\<lambda>(obj, mros, result). sum_list (map length mros)))" by simp
next
  fix obj :: 'a and mros :: "'a list list" and result :: "'a list"
    and nonempty candidate
  assume ne: "nonempty = filter (\<lambda>mro. mro \<noteq> []) mros"
    and fc: "find_candidate nonempty nonempty = Some candidate"
  from find_candidate_hd[OF fc] obtain m where "m \<in> set nonempty" "hd m = candidate"
    by blast
  then have "m \<in> set mros" "m \<noteq> []" "hd m = candidate" using ne by auto
  from del_heads_length_less[OF this]
  show "((obj, del_heads candidate mros, result @ [candidate]), (obj, mros, result))
        \<in> measure (\<lambda>(obj, mros, result). sum_list (map length mros))"
    by simp
qed

declare merge_mro_loop.simps [simp del]

definition merge_mro :: "'a \<Rightarrow> 'a list list \<Rightarrow> 'a schema_error + 'a list" where
  "merge_mro obj mros = merge_mro_loop obj mros []"

text \<open>
  \<open>compute_mro\<close> calls itself on every direct base (through the method
  \<open>InheritingObject.compute_mro\<close>) before it merges. On a base graph with a cycle the
  recursion never returns; the model takes fuel, the depth of calls allowed, and
  \<open>None\<close> is the call that did not return within it. The schema enters through
  \<open>bases\<close>, the value of \<open>obj.get_bases(schema).objects(schema)\<close> for each entity.
  \<open>collect_mros\<close> is the loop \<open>for base in bases: mros.append(base.compute_mro(schema))\<close>:
  the first base whose linearization raises ends it.
\<close>

fun collect_mros ::
  "('a \<Rightarrow> ('a schema_error + 'a list) option) \<Rightarrow> 'a list \<Rightarrow> ('a schema_error + 'a list list) option"
where
  "collect_mros f [] = Some (Inr [])"
| "collect_mros f (base # rest) =
     (case f base of
        None \<Rightarrow> None
      | Some (Inl e) \<Rightarrow> Some (Inl e)
      | Some (Inr mro) \<Rightarrow>
          (case collect_mros f rest of
             None \<Rightarrow> None
           | Some (Inl e) \<Rightarrow> Some (Inl e)
           | Some (Inr mros) \<Rightarrow> Some (Inr (mro # mros))))"

fun compute_mro :: "nat \<Rightarrow> ('a \<Rightarrow> 'a list) \<Rightarrow> 'a \<Rightarrow> ('a schema_error + 'a list) option" where
  "compute_mro 0 bases obj = None"
| "compute_mro (Suc fuel) bases obj =
     (case collect_mros (\<lambda>base. compute_mro fuel bases base) (bases obj) of
        None \<Rightarrow> None
      | Some (Inl e) \<Rightarrow> Some (Inl e)
      | Some (Inr mros) \<Rightarrow> Some (merge_mro obj ([obj] # mros)))"

text \<open>
  A concrete base graph: \<open>B1\<close> extends \<open>X, Y\<close>, \<open>B2\<close> extends \<open>Y, X\<close>, and \<open>D\<close>
  extends \<open>B1, B2\<close>.
\<close>

definition opposed_bases :: "string \<Rightarrow> string list" where
  "opposed_bases n =
     (if n = ''D'' then [''B1'', ''B2'']
      else if n = ''B1'' then [''X'', ''Y'']
      else if n = ''B2'' then [''Y'', ''X'']
      else [])"


section \<open>Base-delta calculator (edb/schema/inheriting.py, \<open>delta_bases\<close>)\<close>

text \<open>
  Bases are named; a base name is a value of \<open>'a\<close>, and \<open>so.ObjectRef(name=b)\<close> is the
  name \<open>b\<close>. An added group is the list of names to insert with its anchor: the string
  \<open>'LAST'\<close> (or \<open>None\<close>), the string \<open>'FIRST'\<close>, or a pair \<open>('BEFORE', ref)\<close>.
\<close>

datatype 'a position = FIRST | LAST | BEFORE 'a

type_synonym 'a added_group = "'a list \<times> 'a position"

text \<open>
  The loop \<open>for i, base in enumerate(new_bases)\<close> of \<open>delta_bases\<close> over the rest of
  \<open>new_bases\<close>, with the state it updates: \<open>j\<close>, \<open>added_bases\<close>, \<open>added_base_refs\<close> and
  \<open>added_set\<close>. The loop is entered with \<open>j = 0\<close> only when \<open>common_bases\<close> is not empty,
  and it breaks as soon as \<open>j\<close> reaches \<open>len(common_bases)\<close>, so \<open>common_bases[j]\<close> is
  always in range. For a base equal to \<open>common_bases[j]\<close> the two tests of the round,
  \<open>if added_base_refs\<close> and \<open>if j >= len(common_bases)\<close> after \<open>j += 1\<close>, are written
  out as four cases.
\<close>

fun delta_loop ::
  "'a list \<Rightarrow> 'a list \<Rightarrow> nat \<Rightarrow> 'a added_group list \<Rightarrow> 'a list \<Rightarrow> 'a set \<Rightarrow>
   'a added_group list \<times> 'a list \<times> 'a set"
where
  "delta_loop common_bases [] j added_bases added_base_refs added_set =
     (added_bases, added_base_refs, added_set)"
| "delta_loop common_bases (base # rest) j added_bases added_base_refs added_set =
     (if common_bases ! j = base then
        (if added_base_refs \<noteq> [] then
           (if Suc j \<ge> length common_bases
            then (added_bases @ [(added_base_refs, BEFORE (common_bases ! j))], [], added_set)
            else delta_loop common_bases rest (Suc j)
                   (added_bases @ [(added_base_refs, BEFORE (common_bases ! j))]) [] added_set)
         else
           (if Suc j \<ge> length common_bases
            then (added_bases, added_base_refs, added_set)
            else delta_loop common_bases rest (Suc j) added_bases added_base_refs added_set))
      else delta_loop common_bases rest j added_bases (added_base_refs @ [base])
             (insert base added_set))"

text \<open>
  \<open>delta_bases\<close> returns \<open>(removed_bases, added_bases)\<close>. \<open>removed_bases\<close> lists the
  frozenset \<open>dropped\<close> in its iteration order, which the language leaves open, and the
  rebase command reads it back as a set; it is the set \<open>dropped\<close> here.
\<close>

definition delta_bases :: "'a list \<Rightarrow> 'a list \<Rightarrow> 'a set \<times> 'a added_group list" where
  "delta_bases old_bases new_bases =
     (let dropped = set old_bases - set new_bases;
          common_bases = filter (\<lambda>b. b \<notin> dropped) old_bases;
          (added_bases, added_base_refs, added_set) =
             (if common_bases \<noteq> [] then delta_loop common_bases new_bases 0 [] [] {}
              else ([], [], {}));
          tail_bases = added_base_refs @
             filter (\<lambda>b. b \<notin> added_set \<and> b \<notin> set common_bases) new_bases
      in (dropped,
          if tail_bases \<noteq> [] then added_bases @ [(tail_bases, LAST)] else added_bases))"

section \<open>Rebase coordinator: the base list (\<open>RebaseInheritingObject.apply\<close>, lines 230 to 269)\<close>

text \<open>
  The schema holds one object per name, so the list \<open>bases\<close> of base objects is the list
  of their names, and \<open>bases.remove(b)\<close>, which deletes the first element equal to
  \<open>b\<close>, is \<open>remove1\<close>.

  \<open>for b in bases: if b.get_name(schema) in removed_bases: bases.remove(b) else:
  existing_bases.add(...)\<close> iterates over the list it shortens. The list iterator keeps a
  position \<open>i\<close>; each round reads \<open>bases[i]\<close> if \<open>i < len(bases)\<close> and moves to \<open>i + 1\<close>.
\<close>

function remove_loop :: "'a set \<Rightarrow> nat \<Rightarrow> 'a list \<Rightarrow> 'a set \<Rightarrow> 'a list \<times> 'a set" where
  "remove_loop removed_bases i bases existing_bases =
     (if i < length bases then
        (if bases ! i \<in> removed_bases
         then remove_loop removed_bases (Suc i) (remove1 (bases ! i) bases) existing_bases
         else remove_loop removed_bases (Suc i) bases (insert (bases ! i) existing_bases))
      else (bases, existing_bases))"
  by pat_completeness auto
termination
  by (relation "measure (\<lambda>(removed_bases, i, bases, existing_bases). length bases - i)")
     (auto simp: length_remove1)

declare remove_loop.simps [simp del]

text \<open>
  \<open>index = {b.get_name(schema): i for i, b in enumerate(bases)}\<close>: a later position
  overwrites an earlier one of the same name.
\<close>

definition index_of :: "'a list \<Rightarrow> 'a \<rightharpoonup> nat" where
  "index_of bases = fold (\<lambda>(i, b) index. index(b \<mapsto> i)) (enumerate 0 bases) Map.empty"

text \<open>
  The loop \<open>for new_bases, pos in self.added_bases\<close>. \<open>index[ref]\<close> raises \<open>KeyError\<close> for
  a name that is not in \<open>bases\<close>. \<open>bases[idx:idx] = [...]\<close> inserts at \<open>idx\<close>, which is at
  most \<open>len(bases)\<close>. \<open>existing_bases\<close> is not updated by the insertions.
\<close>

fun apply_added :: "'a set \<Rightarrow> 'a list \<Rightarrow> 'a added_group list \<Rightarrow> 'a schema_error + 'a list" where
  "apply_added existing_bases bases [] = Inr bases"
| "apply_added existing_bases bases ((new_bases, pos) # rest) =
     (case (case pos of
              LAST \<Rightarrow> Inr (length bases)
            | FIRST \<Rightarrow> Inr 0
            | BEFORE ref \<Rightarrow>
                (case index_of bases ref of None \<Rightarrow> Inl (KeyError ref) | Some idx \<Rightarrow> Inr idx))
      of
        Inl e \<Rightarrow> Inl e
      | Inr idx \<Rightarrow>
          apply_added existing_bases
            (take idx bases @ filter (\<lambda>b. b \<notin> existing_bases) new_bases @ drop idx bases)
            rest)"

text \<open>Lines 237 to 262: the removals, then the insertions.\<close>

definition reconstruct ::
  "'a set \<Rightarrow> 'a added_group list \<Rightarrow> 'a list \<Rightarrow> 'a schema_error + 'a list" where
  "reconstruct removed_bases added_bases bases =
     (case remove_loop removed_bases 0 bases {} of
        (bases', existing_bases) \<Rightarrow> apply_added existing_bases bases' added_bases)"

text \<open>
  Lines 230 to 269, the value stored in the field \<open>bases\<close>. The default base name is
  read twice, as \<open>scls.get_default_base_name()\<close> before the reconstruction and as
  \<open>default = metaclass.get_default_base_name()\<close> after it; both are parameters (the class method
  returns \<open>None\<close> for \<open>InheritingObject\<close> and \<open>std::Object\<close> for \<open>ObjectType\<close>).
\<close>

definition rebase_bases ::
  "'a option \<Rightarrow> 'a option \<Rightarrow> 'a list \<Rightarrow> 'a set \<Rightarrow> 'a added_group list \<Rightarrow>
   'a schema_error + 'a list" where
  "rebase_bases default_base_name default_name bases removed_bases added_bases =
     (let bases0 = (case default_base_name of
                      Some default_base \<Rightarrow> if bases = [default_base] then [] else bases
                    | None \<Rightarrow> bases)
      in case reconstruct removed_bases added_bases bases0 of
           Inl e \<Rightarrow> Inl e
         | Inr bases' \<Rightarrow>
             Inr (if bases' = [] then (case default_name of Some d \<Rightarrow> [d] | None \<Rightarrow> [])
                  else bases'))"

section \<open>Rebase coordinator: ancestors and the cascade (\<open>RebaseInheritingObject.apply\<close>, lines 271 to 297)\<close>

text \<open>
  The part of the schema the rebase reads and writes: the fields \<open>bases\<close> and
  \<open>ancestors\<close> of every entity (\<open>ancestors\<close> defaults to \<open>None\<close>).
\<close>

record 'a schema =
  s_bases :: "'a \<Rightarrow> 'a list"
  s_ancestors :: "'a \<Rightarrow> 'a list option"

text \<open>
  An alter sub-command of the entity's class: \<open>alter_cmd(classname=...)\<close>, with the value
  of the \<open>AlterObjectProperty(property='ancestors', new_value=...)\<close> it holds, if any.
\<close>

datatype 'a alter = Alter (classname: 'a) (ancestors_value: "'a list option")

text \<open>
  The rebase command: its fields \<open>removed_bases\<close> and \<open>added_bases\<close>, and what
  \<open>self.get_subcommands(type=alter_cmd)\<close> lists; \<open>self.add(alter)\<close> appends to it.
\<close>

record 'a rebase_cmd =
  removed_bases :: "'a set"
  added_bases :: "'a added_group list"
  subcommands :: "'a alter list"

text \<open>
  The loop \<open>for descendant in descendants\<close> (lines 286 to 295): the descendant's
  \<open>ancestors\<close> are set to \<open>compute_mro(schema, descendant)[1:]\<close> and an alter command
  that records them is added to the rebase command. An exception of \<open>compute_mro\<close> leaves
  the loop.
\<close>

fun cascade ::
  "nat \<Rightarrow> 'a list \<Rightarrow> 'a schema \<Rightarrow> 'a rebase_cmd \<Rightarrow>
   ('a schema_error + 'a schema \<times> 'a rebase_cmd) option"
where
  "cascade fuel [] schema cmd = Some (Inr (schema, cmd))"
| "cascade fuel (descendant # rest) schema cmd =
     (case compute_mro fuel (s_bases schema) descendant of
        None \<Rightarrow> None
      | Some (Inl e) \<Rightarrow> Some (Inl e)
      | Some (Inr mro) \<Rightarrow>
          cascade fuel rest
            (schema\<lparr>s_ancestors := (s_ancestors schema)(descendant \<mapsto> tl mro)\<rparr>)
            (cmd\<lparr>subcommands := subcommands cmd @ [Alter descendant (Some (tl mro))]\<rparr>))"

text \<open>
  \<open>RebaseInheritingObject.apply\<close> from line 230 on, for the entity \<open>scls\<close>: \<open>schema\<close> is
  the schema after lines 201 to 228 (stale references pruned, field updates and carried
  sub-commands applied). \<open>descendants\<close> is the value of
  \<open>list(scls.descendants(schema))\<close> at line 284; \<open>schema.get_descendants\<close> is not part
  of the sources at hand. The attribute values the command records for itself
  (\<open>set_attribute_value\<close>) do not reach the schema and are left out.
\<close>

definition rebase_apply ::
  "nat \<Rightarrow> 'a option \<Rightarrow> 'a option \<Rightarrow> 'a list \<Rightarrow> 'a rebase_cmd \<Rightarrow> 'a schema \<Rightarrow> 'a \<Rightarrow>
   ('a schema_error + 'a schema \<times> 'a rebase_cmd) option" where
  "rebase_apply fuel default_base_name default_name descendants cmd schema scls =
     (case rebase_bases default_base_name default_name (s_bases schema scls)
             (removed_bases cmd) (added_bases cmd) of
        Inl e \<Rightarrow> Some (Inl e)
      | Inr bases \<Rightarrow>
          (let schema1 = schema\<lparr>s_bases := (s_bases schema)(scls := bases)\<rparr> in
           case compute_mro fuel (s_bases schema1) scls of
             None \<Rightarrow> None
           | Some (Inl e) \<Rightarrow> Some (Inl e)
           | Some (Inr mro) \<Rightarrow>
               (let schema2 = schema1\<lparr>s_ancestors := (s_ancestors schema1)(scls \<mapsto> tl mro)\<rparr>
                in if descendants \<noteq> [] \<and> subcommands cmd = []
                   then cascade fuel descendants schema2 cmd
                   else Some (Inr (schema2, cmd)))))"

text \<open>
  A concrete schema: \<open>P\<close> extends \<open>A\<close>, and \<open>C1\<close> and \<open>C2\<close> extend \<open>P\<close>; \<open>A\<close> and \<open>B\<close> have
  no bases. The cached ancestors are those of this base graph.
\<close>

definition family_schema :: "string schema" where
  "family_schema =
     \<lparr>s_bases = (\<lambda>n. if n = ''P'' then [''A'']
                     else if n = ''C1'' \<or> n = ''C2'' then [''P''] else []),
      s_ancestors = (\<lambda>n. if n = ''P'' then Some [''A'']
                         else if n = ''C1'' \<or> n = ''C2'' then Some [''P'', ''A'']
                         else Some [])\<rparr>"

text \<open>The rebase of \<open>P\<close> from \<open>A\<close> to \<open>B\<close>, carrying the given alter sub-commands.\<close>

definition rebase_P :: "string alter list \<Rightarrow> string rebase_cmd" where
  "rebase_P alters =
     \<lparr>removed_bases = {''A''}, added_bases = [([''B''], LAST)], subcommands = alters\<rparr>"

text \<open>
  The invariant of the field \<open>ancestors\<close>: the cached value of \<open>x\<close> is the linearization
  of \<open>x\<close>, computed afresh from the bases, without its first element.
\<close>

definition ancestors_fresh :: "nat \<Rightarrow> 'a schema \<Rightarrow> 'a \<Rightarrow> bool" where
  "ancestors_fresh fuel schema x =
     (case compute_mro fuel (s_bases schema) x of
        Some (Inr mro) \<Rightarrow> s_ancestors schema x = Some (tl mro)
      | _ \<Rightarrow> False)"

section \<open>Reference merge engine (\<open>InheritingObject.merge_classref_dict\<close>)\<close>

text \<open>
  Entities are values of \<open>'e\<close>, keys of a reference collection values of \<open>'k\<close>, and
  referenced objects (members) values of \<open>'m\<close>. The two exceptions of
  \<open>merge_classref_dict\<close> are \<open>SchemaDefinitionError\<close>s: "<self>: <local> must be declared
  using the `inherited` keyword because it is defined in the following ancestor(s):
  <the keys of ancestry>" and "<self>: <local> cannot be declared `inherited` as there are
  no ancestors defining it".
\<close>

datatype ('e, 'm) definition_error =
    MustDeclareInherited 'e 'm "'e list"
  | CannotDeclareInherited 'e 'm

text \<open>
  What \<open>merge_classref_dict\<close> reads from, and calls on, the classes of the members;
  their code is not part of the sources at hand, so they are parameters:
  \<^item> \<open>backref m\<close> is \<open>m.get_field_value(schema, backref_attr)\<close>, the owner of \<open>m\<close>;
  \<^item> \<open>declared_inherited m\<close> is \<open>m.get_declared_inherited(local_schema)\<close>;
  \<^item> \<open>inherit_pure item source\<close> is \<open>classrefcls.inherit_pure(schema, item,
    source=self, dctx=dctx)\<close>: whether the schema it returns is the schema it was given,
    and the member it returns;
  \<^item> \<open>derive_from_root source key merge_bases\<close> is the member returned by
    \<open>type(inherited[0]).derive_from_root(schema, source=self, unqualified_name=key,
    merge_bases=inherited, attrs={'inherited': True}, dctx=dctx)\<close>.
  Members are taken to be true in a condition, as objects are unless their class says
  otherwise, and the owner and the flag of a member are taken not to change while the
  collection is merged.
\<close>

record ('e, 'k, 'm) refclass =
  backref :: "'m \<Rightarrow> 'e"
  declared_inherited :: "'m \<Rightarrow> bool"
  inherit_pure :: "'m \<Rightarrow> 'e \<Rightarrow> bool \<times> 'm"
  derive_from_root :: "'e \<Rightarrow> 'k \<Rightarrow> 'm list \<Rightarrow> 'm"

text \<open>
  The calls that change the schema outside this function, recorded as they are made:
  \<open>local.acquire_ancestor_inheritance(schema, inherited)\<close> followed by
  \<open>local.finalize(schema, bases=inherited)\<close>; \<open>derive_from_root\<close>; \<open>inherit_pure\<close>.
\<close>

datatype ('e, 'k, 'm) external_call =
    AcquireAndFinalize 'm "'m list"
  | DeriveFromRoot 'e 'k "'m list"
  | InheritPure 'm 'e

text \<open>
  Lines 488 to 495: the entry under the key in the full collection of each base, in the
  order of the bases. \<open>attr_of b\<close> is the explicit value of the field \<open>attr\<close> of \<open>b\<close>, the
  empty map when it is \<open>None\<close> or empty.
\<close>

definition base_refs :: "('e \<Rightarrow> 'k \<rightharpoonup> 'm) \<Rightarrow> 'e list \<Rightarrow> 'k \<Rightarrow> 'm list" where
  "base_refs attr_of bases classref_key = List.map_filter (\<lambda>b. attr_of b classref_key) bases"

text \<open>
  Lines 497 to 500: \<open>ancestry = {pref.get_field_value(schema, backref_attr): pref for pref
  in inherited}\<close>. A dictionary keeps a key at the place of its first insertion and the
  value of its last, which is \<open>AList.update\<close> on the list of its items.
\<close>

definition ancestry_of :: "('e, 'k, 'm, 'x) refclass_scheme \<Rightarrow> 'm list \<Rightarrow> ('e \<times> 'm) list" where
  "ancestry_of cls inherited = fold (\<lambda>pref. AList.update (backref cls pref) pref) inherited []"

text \<open>What one round of the loop over \<open>classref_keys\<close> leaves behind, when it does not raise.\<close>

record ('e, 'k, 'm) key_merge =
  km_merged :: "'m option"
  km_pure_inheritance :: bool
  km_inherited :: "'m list"
  km_calls :: "('e, 'k, 'm) external_call list"

text \<open>
  One round of the loop (lines 484 to 561), up to the updates of the collections:
  \<open>None\<close> is the \<open>continue\<close> of line 503. \<open>dctx\<close> is \<open>None\<close> or holds the flag
  \<open>dctx.declarative\<close>. The member \<open>the local\<close> is read only where \<open>local\<close> is not
  \<open>None\<close>: behind the test \<open>local \<noteq> None\<close>, or with \<open>inherited\<close> empty, where line 502 has
  ruled \<open>None\<close> out; likewise \<open>the dctx\<close> behind \<open>dctx \<noteq> None\<close>.
\<close>

definition merge_classref_key ::
  "('e, 'k, 'm, 'x) refclass_scheme \<Rightarrow> bool \<Rightarrow> bool option \<Rightarrow> 'e \<Rightarrow> ('e \<Rightarrow> 'k \<rightharpoonup> 'm) \<Rightarrow> 'e list \<Rightarrow>
   ('k \<rightharpoonup> 'm) \<Rightarrow> 'k \<Rightarrow> ('e, 'm) definition_error + ('e, 'k, 'm) key_merge option" where
  "merge_classref_key cls requires_explicit_inherit dctx self attr_of bases local_classrefs
     classref_key =
     (let local = local_classrefs classref_key;
          ancestry = ancestry_of cls (base_refs attr_of bases classref_key);
          inherited = map snd ancestry
      in if inherited = [] \<and> local = None then Inr None
         else
           (let (merged, pure_inheritance, calls) =
                  (if local \<noteq> None \<and> inherited \<noteq> [] then
                     (local, False, [AcquireAndFinalize (the local) inherited])
                   else if length inherited > 1 then
                     (Some (derive_from_root cls self classref_key inherited), False,
                      [DeriveFromRoot self classref_key inherited])
                   else if length inherited = 1 then
                     (Some (snd (inherit_pure cls (hd inherited) self)),
                      fst (inherit_pure cls (hd inherited) self),
                      [InheritPure (hd inherited) self])
                   else (local, False, []))
            in if local \<noteq> None \<and> inherited \<noteq> [] \<and> \<not> pure_inheritance \<and>
                  requires_explicit_inherit \<and> \<not> declared_inherited cls (the local) \<and>
                  dctx \<noteq> None \<and> the dctx
               then Inl (MustDeclareInherited self (the local) (map fst ancestry))
               else if inherited = [] \<and> declared_inherited cls (the local)
               then Inl (CannotDeclareInherited self (the local))
               else Inr (Some \<lparr>km_merged = merged, km_pure_inheritance = pure_inheritance,
                               km_inherited = inherited, km_calls = calls\<rparr>)))"

text \<open>
  The loop over \<open>classref_keys\<close> with the collections it updates (lines 563 to 577):
  \<open>classrefs.update(schema, [merged])\<close> files \<open>merged\<close> under the key of the round. The
  result is what line 579 writes to \<open>attr\<close> and \<open>local_attr\<close>, with the calls made. The
  delta added to \<open>dctx.current().op\<close> is not part of the schema and is left out. When the
  argument \<open>classref_keys\<close> is \<open>None\<close> the keys are those of \<open>classrefs\<close>.
\<close>

fun merge_classref_dict ::
  "('e, 'k, 'm, 'x) refclass_scheme \<Rightarrow> bool \<Rightarrow> bool option \<Rightarrow> 'e \<Rightarrow> ('e \<Rightarrow> 'k \<rightharpoonup> 'm) \<Rightarrow> 'e list \<Rightarrow>
   'k list \<Rightarrow> ('k \<rightharpoonup> 'm) \<Rightarrow> ('k \<rightharpoonup> 'm) \<Rightarrow> ('e, 'k, 'm) external_call list \<Rightarrow>
   ('e, 'm) definition_error + ('k \<rightharpoonup> 'm) \<times> ('k \<rightharpoonup> 'm) \<times> ('e, 'k, 'm) external_call list"
where
  "merge_classref_dict cls requires_explicit_inherit dctx self attr_of bases []
     classrefs local_classrefs calls = Inr (classrefs, local_classrefs, calls)"
| "merge_classref_dict cls requires_explicit_inherit dctx self attr_of bases (classref_key # rest)
     classrefs local_classrefs calls =
     (case merge_classref_key cls requires_explicit_inherit dctx self attr_of bases
             local_classrefs classref_key of
        Inl e \<Rightarrow> Inl e
      | Inr None \<Rightarrow>
          merge_classref_dict cls requires_explicit_inherit dctx self attr_of bases rest
            classrefs local_classrefs calls
      | Inr (Some r) \<Rightarrow>
          (if km_inherited r \<noteq> [] then
             merge_classref_dict cls requires_explicit_inherit dctx self attr_of bases rest
               (classrefs(classref_key := km_merged r))
               (if \<not> km_pure_inheritance r then local_classrefs(classref_key := km_merged r)
                else local_classrefs)
               (calls @ km_calls r)
           else
             merge_classref_dict cls requires_explicit_inherit dctx self attr_of bases rest
               classrefs local_classrefs (calls @ km_calls r)))"

text \<open>
  A class of members for concrete runs: a member is the triple of its owner, its name
  and its flag; pure sharing is always possible; a derived member belongs to the
  source and is flagged inherited. In \<open>sample_attr\<close> the entities \<open>A\<close>, \<open>X\<close> and \<open>Y\<close> each
  define \<open>m\<close>, and \<open>B1\<close> and \<open>B2\<close> expose the \<open>m\<close> of \<open>A\<close>.
\<close>

definition sample_cls :: "(string, string, string \<times> string \<times> bool) refclass" where
  "sample_cls =
     \<lparr>backref = fst,
      declared_inherited = (\<lambda>m. snd (snd m)),
      inherit_pure = (\<lambda>item source. (True, item)),
      derive_from_root = (\<lambda>source key merge_bases. (source, key, True))\<rparr>"

definition sample_attr :: "string \<Rightarrow> string \<rightharpoonup> string \<times> string \<times> bool" where
  "sample_attr b =
     (if b = ''A'' \<or> b = ''B1'' \<or> b = ''B2'' then [''m'' \<mapsto> (''A'', ''m'', False)]
      else if b = ''X'' then [''m'' \<mapsto> (''X'', ''m'', False)]
      else if b = ''Y'' then [''m'' \<mapsto> (''Y'', ''m'', False)]
      else Map.empty)"

section \<open>Referenced-object propagator: deletion (\<open>del_classref\<close>, \<open>_delete_innards\<close> and the re-merge of \<open>_alter_finalize\<close>)\<close>

text \<open>
  The part of the schema the deletion reads and writes, for one reference collection:
  the bases of every entity, its full collection (the field \<open>attr\<close>) and its local
  collection (the field \<open>local_attr\<close>), both maps from keys to members, and the keys of
  its collection \<open>non_inheritable_attr\<close> (no keys where the RefDict names no such
  collection, or the collection is \<open>None\<close> or empty). A collection that is \<open>None\<close> is
  the empty map.
\<close>

record ('e, 'k, 'm) refschema =
  r_bases :: "'e \<Rightarrow> 'e list"
  r_attr :: "'e \<Rightarrow> 'k \<rightharpoonup> 'm"
  r_local_attr :: "'e \<Rightarrow> 'k \<rightharpoonup> 'm"
  r_non_inheritable :: "'e \<Rightarrow> 'k set"

datatype name_error = UnboundLocalError

text \<open>
  Modelled from the spec: the collection methods \<open>delete(schema, [key])\<close> and
  \<open>add(schema, member)\<close> of edb/schema/objects.py, which is not part of the sources at
  hand. The spec has a key "removed" from a collection and a collection "backfilled with
  the ancestor's definition": \<open>delete\<close> leaves the collection without the key,
  \<open>add\<close> files the member under its key, here the key it was found under.
\<close>

definition coll_delete :: "('k \<rightharpoonup> 'm) \<Rightarrow> 'k \<Rightarrow> ('k \<rightharpoonup> 'm)" where
  "coll_delete coll key = coll(key := None)"

definition coll_add :: "('k \<rightharpoonup> 'm) \<Rightarrow> 'k \<Rightarrow> 'm \<Rightarrow> ('k \<rightharpoonup> 'm)" where
  "coll_add coll key member = coll(key \<mapsto> member)"

text \<open>
  Modelled from the spec: \<open>Object.del_classref\<close> of edb/schema/objects.py, reached as
  \<open>super().del_classref(schema, collection, key)\<close> and not part of the sources at hand.
  The spec has the key "removed outright from the owner": from its local and from its
  full collection.
\<close>

definition object_del_classref ::
  "('e, 'k, 'm) refschema \<Rightarrow> 'e \<Rightarrow> 'k \<Rightarrow> ('e, 'k, 'm) refschema" where
  "object_del_classref schema self key =
     schema\<lparr>r_attr := (r_attr schema)(self := coll_delete (r_attr schema self) key),
            r_local_attr :=
              (r_local_attr schema)(self := coll_delete (r_local_attr schema self) key)\<rparr>"

text \<open>
  Lines 724 to 728 of \<open>del_classref\<close>: \<open>inherited\<close> after the loop over the bases, the
  entry of the first base whose full collection has the key, \<open>None\<close> when no base has it.
\<close>

fun first_inherited :: "('e, 'k, 'm) refschema \<Rightarrow> 'e list \<Rightarrow> 'k \<Rightarrow> 'm option" where
  "first_inherited schema [] key = None"
| "first_inherited schema (base # rest) key =
     (case r_attr schema base key of
        Some inherited \<Rightarrow> Some inherited
      | None \<Rightarrow> first_inherited schema rest key)"

text \<open>
  The loop over the descendants, the same in \<open>del_classref\<close> (lines 731 to 739) and in
  \<open>_delete_innards\<close> (lines 141 to 149): the key is deleted from the full collection of
  every descendant whose local collection does not have it.
\<close>

fun drop_from_descendants ::
  "'e list \<Rightarrow> 'k \<Rightarrow> ('e, 'k, 'm) refschema \<Rightarrow> ('e, 'k, 'm) refschema" where
  "drop_from_descendants [] key schema = schema"
| "drop_from_descendants (descendant # rest) key schema =
     drop_from_descendants rest key
       (if r_local_attr schema descendant key = None
        then schema\<lparr>r_attr :=
               (r_attr schema)(descendant := coll_delete (r_attr schema descendant) key)\<rparr>
        else schema)"

text \<open>
  \<open>InheritingObject.del_classref\<close>. With no bases the loop of line 724 never binds
  \<open>inherited\<close> and line 730 raises \<open>UnboundLocalError\<close>. \<open>descendants schema self\<close> is
  \<open>self.descendants(schema)\<close>, a parameter: \<open>schema.get_descendants\<close> is not part of the
  sources at hand.
\<close>

definition del_classref ::
  "(('e, 'k, 'm) refschema \<Rightarrow> 'e \<Rightarrow> 'e list) \<Rightarrow> ('e, 'k, 'm) refschema \<Rightarrow> 'e \<Rightarrow> 'k \<Rightarrow>
   name_error + ('e, 'k, 'm) refschema" where
  "del_classref descendants schema self key =
     (if r_bases schema self = [] then Inl UnboundLocalError
      else
        (let inherited = first_inherited schema (r_bases schema self) key;
             schema1 = (if inherited \<noteq> None
                        then drop_from_descendants (descendants schema self) key schema
                        else schema);
             schema2 = object_del_classref schema1 self key
         in Inr (case inherited of
                   Some member \<Rightarrow>
                     schema2\<lparr>r_attr :=
                       (r_attr schema2)(self := coll_add (r_attr schema2 self) key member)\<rparr>
                 | None \<Rightarrow> schema2)))"

text \<open>
  \<open>ReferencedObjectCommand._delete_innards\<close> for a referrer context that is given:
  \<open>referrer\<close> is \<open>referrer_ctx.scls\<close>, an inheriting object, and \<open>refname\<close> the key of the
  deleted member. \<open>super()._delete_innards\<close> belongs to the command framework and is
  taken to leave the collections alone.
\<close>

definition delete_innards ::
  "(('e, 'k, 'm) refschema \<Rightarrow> 'e \<Rightarrow> 'e list) \<Rightarrow> ('e, 'k, 'm) refschema \<Rightarrow> 'e \<Rightarrow> 'k \<Rightarrow>
   name_error + ('e, 'k, 'm) refschema" where
  "delete_innards descendants schema referrer refname =
     (case del_classref descendants schema referrer refname of
        Inl e \<Rightarrow> Inl e
      | Inr schema' \<Rightarrow>
          Inr (drop_from_descendants (descendants schema' referrer) refname schema'))"







text \<open>
  A concrete schema: \<open>G\<close> defines \<open>m\<close>; \<open>P\<close> extends \<open>G\<close> and overrides \<open>m\<close> with a member
  of its own; \<open>C\<close> extends \<open>P\<close>, defines nothing and sees the \<open>m\<close> of \<open>P\<close>. A member is the
  pair of its owner and its name.
\<close>

definition override_schema :: "(string, string, string \<times> string) refschema" where
  "override_schema =
     \<lparr>r_bases = (\<lambda>e. if e = ''P'' then [''G''] else if e = ''C'' then [''P''] else []),
      r_attr = (\<lambda>e. if e = ''G'' then [''m'' \<mapsto> (''G'', ''m'')]
                     else if e = ''P'' \<or> e = ''C'' then [''m'' \<mapsto> (''P'', ''m'')]
                     else Map.empty),
      r_local_attr = (\<lambda>e. if e = ''G'' then [''m'' \<mapsto> (''G'', ''m'')]
                           else if e = ''P'' then [''m'' \<mapsto> (''P'', ''m'')]
                           else Map.empty),
      r_non_inheritable = (\<lambda>e. {})\<rparr>"


definition override_descendants :: "string \<Rightarrow> string list" where
  "override_descendants e =
     (if e = ''G'' then [''P'', ''C''] else if e = ''P'' then [''C''] else [])"







section \<open>Properties of the linearization engine\<close>

lemma find_candidate_Some:
  "find_candidate ne xs = Some c \<Longrightarrow> tails ne c = [] \<and> (\<exists>m\<in>set xs. hd m = c)"
  by (induction xs) (auto split: if_splits)

lemma find_candidate_None:
  "(\<forall>m\<in>set xs. tails ne (hd m) \<noteq> []) \<Longrightarrow> find_candidate ne xs = None"
  by (induction xs) auto

lemma del_heads_sets:
  assumes "tails (filter (\<lambda>m. m \<noteq> []) mros) c = []"
  shows "\<Union>(set ` set (del_heads c mros)) = \<Union>(set ` set mros) - {c}"
proof -
  have a: "\<And>m. m \<in> set mros \<Longrightarrow> m \<noteq> [] \<Longrightarrow> c \<notin> set (tl m)"
    using assms by (auto simp: tails_def filter_empty_conv)
  have "\<And>m. m \<in> set mros \<Longrightarrow>
      set (if m \<noteq> [] \<and> hd m = c then tl m else m) = set m - {c}"
  proof -
    fix m assume m: "m \<in> set mros"
    show "set (if m \<noteq> [] \<and> hd m = c then tl m else m) = set m - {c}"
    proof (cases m)
      case Nil then show ?thesis by simp
    next
      case (Cons h t)
      with a[OF m] have "c \<notin> set t" by simp
      then show ?thesis using Cons by auto
    qed
  qed
  then have "set ` set (del_heads c mros) = (\<lambda>m. set m - {c}) ` set mros"
    unfolding del_heads_def set_map image_image by (intro image_cong refl)
  then show ?thesis by auto
qed

lemma del_heads_subseq:
  assumes "m \<in> set mros" and "\<forall>m'\<in>set (del_heads c mros). subseq m' r"
  shows "subseq m (c # r)"
proof (cases "m \<noteq> [] \<and> hd m = c")
  case True
  then have "tl m \<in> set (del_heads c mros)" using assms(1) by (force simp: del_heads_def)
  then have "subseq (tl m) r" using assms(2) by blast
  moreover have "m = c # tl m" using True by (cases m) auto
  ultimately show ?thesis by (metis subseq_Cons2)
next
  case False
  then have "m \<in> set (del_heads c mros)" using assms(1) by (force simp: del_heads_def)
  then have "subseq m r" using assms(2) by blast
  then show ?thesis by (rule list_emb_Cons)
qed

lemma merge_mro_loop_sound:
  "merge_mro_loop obj mros result = Inr r \<Longrightarrow>
   \<exists>r'. r = result @ r' \<and> distinct r' \<and> set r' = \<Union>(set ` set mros) \<and>
        (\<forall>m\<in>set mros. subseq m r')"
proof (induction obj mros result rule: merge_mro_loop.induct)
  case (1 obj mros result)
  let ?ne = "filter (\<lambda>mro. mro \<noteq> []) mros"
  show ?case
  proof (cases "?ne = []")
    case True
    then have all: "\<forall>m\<in>set mros. m = []" by (auto simp: filter_empty_conv)
    have "r = result" using "1.prems" True by (simp add: merge_mro_loop.simps)
    then show ?thesis using all by auto
  next
    case False
    show ?thesis
    proof (cases "find_candidate ?ne ?ne")
      case None
      then show ?thesis using "1.prems" False by (simp add: merge_mro_loop.simps)
    next
      case (Some c)
      have rec: "merge_mro_loop obj (del_heads c mros) (result @ [c]) = Inr r"
        using "1.prems" False Some by (simp add: merge_mro_loop.simps[of obj mros])
      from "1.IH"[OF refl False Some rec] obtain r' where
        r': "r = (result @ [c]) @ r'" "distinct r'"
            "set r' = \<Union>(set ` set (del_heads c mros))"
            "\<forall>m\<in>set (del_heads c mros). subseq m r'" by blast
      from find_candidate_Some[OF Some] have t: "tails ?ne c = []"
        and "\<exists>m\<in>set ?ne. hd m = c" by auto
      then obtain m0 where m0: "m0 \<in> set mros" "m0 \<noteq> []" "hd m0 = c" by auto
      have s: "set r' = \<Union>(set ` set mros) - {c}"
        using r'(3) del_heads_sets[OF t] by simp
      have cin: "c \<in> \<Union>(set ` set mros)" using m0 hd_in_set[of m0] by blast
      have "r = result @ (c # r')" using r'(1) by simp
      moreover have "distinct (c # r')" using r'(2) s by simp
      moreover have "set (c # r') = \<Union>(set ` set mros)" using s cin by auto
      moreover have "\<forall>m\<in>set mros. subseq m (c # r')"
        using del_heads_subseq[OF _ r'(4)] by blast
      ultimately show ?thesis by blast
    qed
  qed
qed

lemma subseq_pair_set: "subseq [x, y] r \<Longrightarrow> x \<in> set r \<and> y \<in> set r"
  by (induction r) (auto split: if_splits simp: subseq_singleton_left)

lemma subseq_pair_distinct:
  "distinct r \<Longrightarrow> subseq [x, y] r \<Longrightarrow> subseq [y, x] r \<Longrightarrow> False"
proof (induction r)
  case Nil
  then show ?case by simp
next
  case (Cons a r)
  then show ?case
    by (auto split: if_splits simp: subseq_singleton_left dest: subseq_pair_set)
qed

lemma collect_mros_Inr:
  "collect_mros f bs = Some (Inr mros) \<Longrightarrow> b \<in> set bs \<Longrightarrow> f b = Some (Inr l) \<Longrightarrow> l \<in> set mros"
  by (induction bs arbitrary: mros) (auto split: option.splits sum.splits)

lemma collect_mros_total:
  "(\<forall>b\<in>set bs. \<exists>l. f b = Some (Inr l)) \<Longrightarrow> \<exists>mros. collect_mros f bs = Some (Inr mros)"
  by (induction bs) (auto split: option.splits sum.splits)

lemma merge_mro_loop_error:
  "merge_mro_loop obj mros result = Inl e \<Longrightarrow> e = InconsistentOrder obj"
proof (induction obj mros result rule: merge_mro_loop.induct)
  case (1 obj mros result)
  let ?ne = "filter (\<lambda>mro. mro \<noteq> []) mros"
  show ?case
  proof (cases "find_candidate ?ne ?ne")
    case None
    then show ?thesis using "1.prems"
      by (simp add: merge_mro_loop.simps[of obj mros] Let_def split: if_splits)
  next
    case (Some c)
    show ?thesis
    proof (cases "?ne = []")
      case True
      then show ?thesis using "1.prems" by (simp add: merge_mro_loop.simps[of obj mros])
    next
      case False
      then have "merge_mro_loop obj (del_heads c mros) (result @ [c]) = Inl e"
        using "1.prems" Some by (simp add: merge_mro_loop.simps[of obj mros])
      from "1.IH"[OF refl False Some this] show ?thesis .
    qed
  qed
qed

text \<open>
  Claim C1. Let every direct base of \<open>D\<close> have a linearization already computed, and let
  two of them, \<open>Ba\<close> and \<open>Bb\<close>, order \<open>X\<close> and \<open>Y\<close> in opposite ways (\<open>X\<close> before
  \<open>Y\<close> in the one, \<open>Y\<close> before \<open>X\<close> in the other). Then \<open>compute_mro\<close> on \<open>D\<close> returns
  no order: it raises the ordering error that names \<open>D\<close>. And in any round of the merge,
  with any \<open>result\<close> accumulated so far: when lists remain and the head of every
  remaining list stands in the tail of a remaining list, the merge raises that error.
  (The source counts the candidate's own list among the tails, so the hypothesis here is
  implied by the one that looks at the other lists only.)
\<close>

theorem inconsistent_order_raises:
  "(Ba \<in> set (bases D) \<and> Bb \<in> set (bases D) \<and>
    (\<forall>b\<in>set (bases D). \<exists>l. compute_mro fuel bases b = Some (Inr l)) \<and>
    compute_mro fuel bases Ba = Some (Inr la) \<and>
    compute_mro fuel bases Bb = Some (Inr lb) \<and>
    subseq [X, Y] la \<and> subseq [Y, X] lb
    \<longrightarrow> compute_mro (Suc fuel) bases D = Some (Inl (InconsistentOrder D)))
   \<and>
   (filter (\<lambda>mro. mro \<noteq> []) mros \<noteq> [] \<and>
    (\<forall>m\<in>set (filter (\<lambda>mro. mro \<noteq> []) mros).
       \<exists>m'\<in>set (filter (\<lambda>mro. mro \<noteq> []) mros). hd m \<in> set (tl m'))
    \<longrightarrow> merge_mro_loop obj mros result = Inl (InconsistentOrder obj))"
proof (intro conjI impI)
  assume h: "Ba \<in> set (bases D) \<and> Bb \<in> set (bases D) \<and>
    (\<forall>b\<in>set (bases D). \<exists>l. compute_mro fuel bases b = Some (Inr l)) \<and>
    compute_mro fuel bases Ba = Some (Inr la) \<and>
    compute_mro fuel bases Bb = Some (Inr lb) \<and>
    subseq [X, Y] la \<and> subseq [Y, X] lb"
  then obtain mros where c: "collect_mros (\<lambda>b. compute_mro fuel bases b) (bases D) = Some (Inr mros)"
    using collect_mros_total[of "bases D" "\<lambda>b. compute_mro fuel bases b"] by blast
  have la: "la \<in> set mros" using collect_mros_Inr[OF c] h by blast
  have lb: "lb \<in> set mros" using collect_mros_Inr[OF c] h by blast
  have "\<not> (\<exists>r. merge_mro D ([D] # mros) = Inr r)"
  proof
    assume "\<exists>r. merge_mro D ([D] # mros) = Inr r"
    then obtain r where "merge_mro_loop D ([D] # mros) [] = Inr r"
      by (auto simp: merge_mro_def)
    from merge_mro_loop_sound[OF this] have d: "distinct r"
      and s: "\<forall>m\<in>set ([D] # mros). subseq m r" by auto
    have "subseq [X, Y] r" using s la h subseq_order.trans by (metis list.set_intros(2))
    moreover have "subseq [Y, X] r" using s lb h subseq_order.trans by (metis list.set_intros(2))
    ultimately show False using subseq_pair_distinct[OF d] by blast
  qed
  moreover have "\<And>e. merge_mro D ([D] # mros) = Inl e \<Longrightarrow> e = InconsistentOrder D"
    by (simp add: merge_mro_def merge_mro_loop_error)
  ultimately have "merge_mro D ([D] # mros) = Inl (InconsistentOrder D)"
    by (cases "merge_mro D ([D] # mros)") auto
  then show "compute_mro (Suc fuel) bases D = Some (Inl (InconsistentOrder D))"
    using c by simp
next
  assume h: "filter (\<lambda>mro. mro \<noteq> []) mros \<noteq> [] \<and>
    (\<forall>m\<in>set (filter (\<lambda>mro. mro \<noteq> []) mros).
       \<exists>m'\<in>set (filter (\<lambda>mro. mro \<noteq> []) mros). hd m \<in> set (tl m'))"
  let ?ne = "filter (\<lambda>mro. mro \<noteq> []) mros"
  have "\<forall>m\<in>set ?ne. tails ?ne (hd m) \<noteq> []"
    using h unfolding tails_def filter_empty_conv by blast
  then have "find_candidate ?ne ?ne = None" by (rule find_candidate_None)
  then show "merge_mro_loop obj mros result = Inl (InconsistentOrder obj)"
    using h by (simp add: merge_mro_loop.simps[of obj mros])
qed

theorem inconsistent_order_raises_witness:
  "compute_mro 2 opposed_bases ''B1'' = Some (Inr [''B1'', ''X'', ''Y'']) \<and>
   compute_mro 2 opposed_bases ''B2'' = Some (Inr [''B2'', ''Y'', ''X'']) \<and>
   compute_mro 3 opposed_bases ''D'' = Some (Inl (InconsistentOrder ''D'')) \<and>
   merge_mro_loop ''D'' [[], [''X'', ''Y''], [''Y'', ''X'']] [''D'', ''B1'', ''B2'']
     = Inl (InconsistentOrder ''D'')"
proof -
  have a: "compute_mro 2 opposed_bases ''B1'' = Some (Inr [''B1'', ''X'', ''Y''])"
    by code_simp
  have b: "compute_mro 2 opposed_bases ''B2'' = Some (Inr [''B2'', ''Y'', ''X''])"
    by code_simp
  have bs: "opposed_bases ''D'' = [''B1'', ''B2'']"
    by (simp add: opposed_bases_def)
  have c: "compute_mro (Suc 2) opposed_bases ''D'' = Some (Inl (InconsistentOrder ''D''))"
    using inconsistent_order_raises
      [where Ba = "''B1''" and Bb = "''B2''" and D = "''D''" and bases = opposed_bases
         and fuel = 2 and la = "[''B1'', ''X'', ''Y'']" and lb = "[''B2'', ''Y'', ''X'']"
         and X = "''X''" and Y = "''Y''", THEN conjunct1]
      a b bs by simp
  have d: "merge_mro_loop ''D'' [[], [''X'', ''Y''], [''Y'', ''X'']] [''D'', ''B1'', ''B2'']
     = Inl (InconsistentOrder ''D'')"
    using inconsistent_order_raises
      [where mros = "[[], [''X'', ''Y''], [''Y'', ''X'']]" and obj = "''D''"
         and result = "[''D'', ''B1'', ''B2'']", THEN conjunct2]
    by simp
  have e: "Suc 2 = 3" by simp
  show ?thesis using a b c d unfolding e by simp
qed

section \<open>Properties of the base-delta calculator and of the base list of a rebase\<close>

lemma delta_loop_groups_subset:
  "delta_loop common rest j added refs aset = (added', refs', aset') \<Longrightarrow>
   \<forall>g\<in>set added. set (fst g) \<subseteq> N \<Longrightarrow> set refs \<subseteq> N \<Longrightarrow> set rest \<subseteq> N \<Longrightarrow>
   (\<forall>g\<in>set added'. set (fst g) \<subseteq> N) \<and> set refs' \<subseteq> N"
proof (induction rest arbitrary: j added refs aset)
  case Nil
  then show ?case by simp
next
  case (Cons base rest)
  show ?case
  proof (cases "common ! j = base")
    case False
    then have "delta_loop common rest j added (refs @ [base]) (insert base aset)
                 = (added', refs', aset')"
      using Cons.prems(1) by simp
    from Cons.IH[OF this] Cons.prems show ?thesis by simp
  next
    case True
    let ?added = "if refs \<noteq> [] then added @ [(refs, BEFORE (common ! j))] else added"
    have sub: "\<forall>g\<in>set ?added. set (fst g) \<subseteq> N" using Cons.prems by auto
    show ?thesis
    proof (cases "Suc j \<ge> length common")
      case True
      with \<open>common ! j = base\<close> Cons.prems(1) have "added' = ?added" "refs' = []"
        by (auto split: if_splits)
      then show ?thesis using sub by simp
    next
      case False
      with \<open>common ! j = base\<close> Cons.prems(1)
      have "delta_loop common rest (Suc j) ?added [] aset = (added', refs', aset')"
        by (auto split: if_splits)
      from Cons.IH[OF this sub] Cons.prems show ?thesis by simp
    qed
  qed
qed

lemma delta_loop_anchors:
  "delta_loop common rest j added refs aset = (added', refs', aset') \<Longrightarrow>
   j < length common \<Longrightarrow> \<forall>g\<in>set added. P (snd g) \<Longrightarrow> \<forall>c\<in>set common. P (BEFORE c) \<Longrightarrow>
   \<forall>g\<in>set added'. P (snd g)"
proof (induction rest arbitrary: j added refs aset)
  case Nil
  then show ?case by simp
next
  case (Cons base rest)
  show ?case
  proof (cases "common ! j = base")
    case False
    then have "delta_loop common rest j added (refs @ [base]) (insert base aset)
                 = (added', refs', aset')"
      using Cons.prems(1) by simp
    from Cons.IH[OF this] Cons.prems show ?thesis by simp
  next
    case True
    let ?added = "if refs \<noteq> [] then added @ [(refs, BEFORE (common ! j))] else added"
    have "P (BEFORE (common ! j))" using Cons.prems(2,4) by simp
    then have sub: "\<forall>g\<in>set ?added. P (snd g)" using Cons.prems(3) by auto
    show ?thesis
    proof (cases "Suc j \<ge> length common")
      case True
      with \<open>common ! j = base\<close> Cons.prems(1) have "added' = ?added"
        by (auto split: if_splits)
      then show ?thesis using sub by simp
    next
      case False
      with \<open>common ! j = base\<close> Cons.prems(1)
      have "delta_loop common rest (Suc j) ?added [] aset = (added', refs', aset')"
        by (auto split: if_splits)
      from Cons.IH[OF this _ sub Cons.prems(4)] False show ?thesis by simp
    qed
  qed
qed

lemma delta_bases_unfold:
  assumes "delta_loop (filter (\<lambda>b. b \<in> set new) old) new 0 [] [] {} = (added, refs, aset)"
    and "filter (\<lambda>b. b \<in> set new) old \<noteq> []"
  shows "delta_bases old new =
    (set old - set new,
     if refs @ filter (\<lambda>b. b \<notin> aset \<and> b \<notin> set (filter (\<lambda>b. b \<in> set new) old)) new \<noteq> []
     then added @ [(refs @ filter (\<lambda>b. b \<notin> aset \<and> b \<notin> set (filter (\<lambda>b. b \<in> set new) old)) new, LAST)]
     else added)"
proof -
  have "filter (\<lambda>b. b \<notin> set old - set new) old = filter (\<lambda>b. b \<in> set new) old"
    by (rule filter_cong) auto
  then show ?thesis using assms unfolding delta_bases_def Let_def by simp
qed

lemma delta_bases_no_common:
  assumes "filter (\<lambda>b. b \<in> set new) old = []"
  shows "delta_bases old new = (set old - set new, if new = [] then [] else [(new, LAST)])"
proof -
  have "filter (\<lambda>b. b \<notin> set old - set new) old = filter (\<lambda>b. b \<in> set new) old"
    by (rule filter_cong) auto
  then show ?thesis using assms unfolding delta_bases_def Let_def by simp
qed

text \<open>
  Claim C7. For four different names, \<open>delta_bases(old=[A,B,C], new=[A,D,B,C])\<close> returns
  nothing removed and the one group \<open>([D], BEFORE B)\<close>. For all lists \<open>old\<close> and
  \<open>new\<close>, no name of a returned added group is in the returned removed set.
\<close>

theorem delta_bases_removed_added_disjoint:
  "(distinct [A, B, C, D] \<longrightarrow> delta_bases [A, B, C] [A, D, B, C] = ({}, [([D], BEFORE B)])) \<and>
   (\<forall>g\<in>set (snd (delta_bases old new)). \<forall>b\<in>set (fst g). b \<notin> fst (delta_bases old new))"
proof
  show "distinct [A, B, C, D] \<longrightarrow> delta_bases [A, B, C] [A, D, B, C] = ({}, [([D], BEFORE B)])"
    by (auto simp: delta_bases_def)
next
  let ?common = "filter (\<lambda>b. b \<in> set new) old"
  have "\<forall>g\<in>set (snd (delta_bases old new)). set (fst g) \<subseteq> set new"
  proof (cases "?common = []")
    case True
    then show ?thesis by (simp add: delta_bases_no_common)
  next
    case False
    obtain added refs aset where
      l: "delta_loop ?common new 0 [] [] {} = (added, refs, aset)"
      by (cases "delta_loop ?common new 0 [] [] {}") auto
    from delta_loop_groups_subset[OF l, of "set new"]
    have "(\<forall>g\<in>set added. set (fst g) \<subseteq> set new) \<and> set refs \<subseteq> set new" by simp
    then show ?thesis by (auto simp: delta_bases_unfold[OF l False])
  qed
  moreover have "fst (delta_bases old new) = set old - set new"
    by (simp add: delta_bases_def Let_def split: prod.splits)
  ultimately show "\<forall>g\<in>set (snd (delta_bases old new)). \<forall>b\<in>set (fst g). b \<notin> fst (delta_bases old new)"
    by auto
qed

text \<open>
  Claim C9. No group returned by \<open>delta_bases\<close> is anchored \<open>FIRST\<close>: the anchor of every
  group is \<open>LAST\<close> or \<open>BEFORE c\<close> for a name \<open>c\<close> that is in both \<open>old\<close> and \<open>new\<close>. When
  \<open>old\<close> and \<open>new\<close> share no name, the added groups are the one group of all of \<open>new\<close>
  anchored \<open>LAST\<close> (and no group when \<open>new\<close> is empty).
\<close>

theorem delta_bases_anchors:
  "(\<forall>g\<in>set (snd (delta_bases old new)).
      snd g \<noteq> FIRST \<and>
      (snd g = LAST \<or> (\<exists>c. snd g = BEFORE c \<and> c \<in> set old \<and> c \<in> set new))) \<and>
   (set old \<inter> set new = {} \<longrightarrow>
      snd (delta_bases old new) = (if new = [] then [] else [(new, LAST)]))"
proof
  let ?common = "filter (\<lambda>b. b \<in> set new) old"
  let ?P = "\<lambda>p. p \<noteq> FIRST \<and> (p = LAST \<or> (\<exists>c. p = BEFORE c \<and> c \<in> set old \<and> c \<in> set new))"
  show "\<forall>g\<in>set (snd (delta_bases old new)). ?P (snd g)"
  proof (cases "?common = []")
    case True
    then show ?thesis by (simp add: delta_bases_no_common)
  next
    case False
    obtain added refs aset where
      l: "delta_loop ?common new 0 [] [] {} = (added, refs, aset)"
      by (cases "delta_loop ?common new 0 [] [] {}") auto
    have "\<forall>g\<in>set added. ?P (snd g)"
      by (rule delta_loop_anchors[OF l]) (use False in auto)
    then show ?thesis by (auto simp: delta_bases_unfold[OF l False])
  qed
next
  show "set old \<inter> set new = {} \<longrightarrow>
      snd (delta_bases old new) = (if new = [] then [] else [(new, LAST)])"
  proof
    assume "set old \<inter> set new = {}"
    then have "filter (\<lambda>b. b \<in> set new) old = []"
      by (auto simp: filter_empty_conv)
    then show "snd (delta_bases old new) = (if new = [] then [] else [(new, LAST)])"
      by (simp add: delta_bases_no_common)
  qed
qed

theorem delta_bases_removed_added_disjoint_witness:
  "distinct [''A'', ''B'', ''C'', ''D''] \<and>
   delta_bases [''A'', ''B'', ''C''] [''A'', ''D'', ''B'', ''C''] = ({}, [([''D''], BEFORE ''B'')]) \<and>
   ([''D''], BEFORE ''B'') \<in> set (snd (delta_bases [''A'', ''B'', ''C''] [''D'', ''B'', ''E''])) \<and>
   ''A'' \<in> fst (delta_bases [''A'', ''B'', ''C''] [''D'', ''B'', ''E'']) \<and>
   ''D'' \<notin> fst (delta_bases [''A'', ''B'', ''C''] [''D'', ''B'', ''E''])"
proof -
  have d: "distinct [''A'', ''B'', ''C'', ''D'']" by simp
  have e: "delta_bases [''A'', ''B'', ''C''] [''D'', ''B'', ''E'']
             = ({''A'', ''C''}, [([''D''], BEFORE ''B''), ([''E''], LAST)])"
    by code_simp
  have g: "([''D''], BEFORE ''B'') \<in> set (snd (delta_bases [''A'', ''B'', ''C''] [''D'', ''B'', ''E'']))"
    unfolding e by simp
  have a: "''A'' \<in> fst (delta_bases [''A'', ''B'', ''C''] [''D'', ''B'', ''E''])"
    unfolding e by simp
  note T = delta_bases_removed_added_disjoint
    [where A = "''A''" and B = "''B''" and C = "''C''" and D = "''D''"
       and old = "[''A'', ''B'', ''C'']" and new = "[''D'', ''B'', ''E'']"]
  have "delta_bases [''A'', ''B'', ''C''] [''A'', ''D'', ''B'', ''C''] = ({}, [([''D''], BEFORE ''B'')])"
    using T[THEN conjunct1] d by blast
  moreover have "''D'' \<notin> fst (delta_bases [''A'', ''B'', ''C''] [''D'', ''B'', ''E''])"
    using T[THEN conjunct2] g by fastforce
  ultimately show ?thesis using d g a by blast
qed

theorem delta_bases_anchors_witness:
  "snd (delta_bases [''A'', ''B'', ''C''] [''D'', ''B'', ''E''])
     = [([''D''], BEFORE ''B''), ([''E''], LAST)] \<and>
   set [''A''] \<inter> set [''B'', ''C''] = {} \<and>
   snd (delta_bases [''A''] [''B'', ''C'']) = [([''B'', ''C''], LAST)] \<and>
   (\<exists>c. snd (hd (snd (delta_bases [''A'', ''B'', ''C''] [''D'', ''B'', ''E''])))
           = BEFORE c \<and> c \<in> set [''A'', ''B'', ''C''] \<and> c \<in> set [''D'', ''B'', ''E''])"
proof -
  have e: "snd (delta_bases [''A'', ''B'', ''C''] [''D'', ''B'', ''E''])
             = [([''D''], BEFORE ''B''), ([''E''], LAST)]"
    by code_simp
  have i: "set [''A''] \<inter> set [''B'', ''C''] = {}" by simp
  have "snd (delta_bases [''A''] [''B'', ''C'']) = [([''B'', ''C''], LAST)]"
    using delta_bases_anchors[where old = "[''A'']" and new = "[''B'', ''C'']", THEN conjunct2] i
    by simp
  moreover have "hd (snd (delta_bases [''A'', ''B'', ''C''] [''D'', ''B'', ''E'']))
       \<in> set (snd (delta_bases [''A'', ''B'', ''C''] [''D'', ''B'', ''E'']))"
    unfolding e by simp
  then have "\<exists>c. snd (hd (snd (delta_bases [''A'', ''B'', ''C''] [''D'', ''B'', ''E''])))
           = BEFORE c \<and> c \<in> set [''A'', ''B'', ''C''] \<and> c \<in> set [''D'', ''B'', ''E'']"
    using delta_bases_anchors
      [where old = "[''A'', ''B'', ''C'']" and new = "[''D'', ''B'', ''E'']", THEN conjunct1]
      e by fastforce
  ultimately show ?thesis using e i by blast
qed

lemma reconstruct_Nil:
  "reconstruct removed added [] = apply_added {} [] added"
  by (simp add: reconstruct_def remove_loop.simps)

text \<open>
  Claim C10. With default base \<open>d\<close>, the rebase of an entity whose base list is exactly
  \<open>[d]\<close> is the rebase of the empty base list: removals and insertions see no \<open>d\<close>. So a
  non-empty group added \<open>LAST\<close> becomes the whole base list, without \<open>d\<close> beside it.
  The default base is put back exactly when the reconstructed list \<open>r\<close> is empty;
  a non-empty \<open>r\<close> is stored as it is.
\<close>

theorem default_base_normalized:
  "rebase_bases (Some d) (Some d) [d] removed added
     = rebase_bases (Some d) (Some d) [] removed added \<and>
   (reconstruct removed added [] = Inr r \<longrightarrow>
      rebase_bases (Some d) (Some d) [d] removed added = Inr (if r = [] then [d] else r)) \<and>
   (new_bases \<noteq> [] \<longrightarrow>
      rebase_bases (Some d) (Some d) [d] removed [(new_bases, LAST)] = Inr new_bases) \<and>
   (bases \<noteq> [d] \<and> reconstruct removed added bases = Inr r \<longrightarrow>
      rebase_bases (Some d) (Some d) bases removed added = Inr (if r = [] then [d] else r))"
  by (auto simp: rebase_bases_def reconstruct_Nil)

theorem default_base_normalized_witness:
  "reconstruct {} [([''Named''], LAST)] [] = Inr [''Named''] \<and>
   rebase_bases (Some ''Object'') (Some ''Object'') [''Object''] {} [([''Named''], LAST)]
     = Inr [''Named''] \<and>
   reconstruct {''Named''} [] [''Named''] = Inr [] \<and>
   rebase_bases (Some ''Object'') (Some ''Object'') [''Named''] {''Named''} []
     = Inr [''Object'']"
proof -
  have a: "reconstruct {} [([''Named''], LAST)] [] = Inr [''Named'']" by code_simp
  have b: "reconstruct {''Named''} [] [''Named''] = Inr []" by code_simp
  have n: "[''Named''] \<noteq> [''Object'']" "[''Named''] \<noteq> ([] :: string list)" by simp_all
  note T = default_base_normalized
    [where d = "''Object''" and removed = "{}" and added = "[([''Named''], LAST)]"
       and r = "[''Named'']" and new_bases = "[''Named'']" and bases = "[''Object'']"]
  note U = default_base_normalized
    [where d = "''Object''" and removed = "{''Named''}" and added = "[]"
       and r = "[]" and new_bases = "[''Named'']" and bases = "[''Named'']"]
  have "rebase_bases (Some ''Object'') (Some ''Object'') [''Object''] {} [([''Named''], LAST)]
     = Inr [''Named'']"
    using T[THEN conjunct2, THEN conjunct1] a by simp
  moreover have "rebase_bases (Some ''Object'') (Some ''Object'') [''Named''] {''Named''} []
     = Inr [''Object'']"
    using U[THEN conjunct2, THEN conjunct2, THEN conjunct2] b n by simp
  ultimately show ?thesis using a b by blast
qed

text \<open>
  Claim C6 says that no name of \<open>removed\<close> is left in the reconstructed base list. The
  removal loop deletes from the list it iterates over, so the element that follows a
  deleted one is never visited: with \<open>removed = {A, B}\<close> the base list \<open>[A, B]\<close> becomes
  \<open>[B]\<close>, and the script \<open>delta_bases\<close> computes from \<open>[A, B, C]\<close> to \<open>[C]\<close> turns
  \<open>[A, B, C]\<close> into \<open>[B, C]\<close>.
\<close>

theorem removed_base_survives:
  "rebase_bases None None [''A'', ''B''] {''A'', ''B''} [] = Inr [''B''] \<and>
   fst (delta_bases [''A'', ''B'', ''C''] [''C'']) = {''A'', ''B''} \<and>
   reconstruct (fst (delta_bases [''A'', ''B'', ''C''] [''C'']))
     (snd (delta_bases [''A'', ''B'', ''C''] [''C''])) [''A'', ''B'', ''C'']
     = Inr [''B'', ''C'']"
  by code_simp


subsection \<open>Applying the edit script of \<open>delta_bases\<close>\<close>

text \<open>
  The removal loop on a duplicate-free list skips the element that follows a deleted
  one. \<open>no_adjacent R xs\<close>: no two neighbours in \<open>xs\<close> are both in \<open>R\<close>; then the loop
  is the filter.
\<close>

fun no_adjacent :: "'a set \<Rightarrow> 'a list \<Rightarrow> bool" where
  "no_adjacent R [] = True"
| "no_adjacent R [x] = True"
| "no_adjacent R (x # y # r) = ((x \<notin> R \<or> y \<notin> R) \<and> no_adjacent R (y # r))"

lemma no_adjacent_nth:
  "(\<forall>i. Suc i < length xs \<longrightarrow> xs ! i \<notin> R \<or> xs ! Suc i \<notin> R) \<Longrightarrow> no_adjacent R xs"
proof (induction R xs rule: no_adjacent.induct)
  case (3 R x y r)
  have "\<forall>i. Suc i < length (y # r) \<longrightarrow> (y # r) ! i \<notin> R \<or> (y # r) ! Suc i \<notin> R"
  proof (intro allI impI)
    fix i assume "Suc i < length (y # r)"
    then have "Suc (Suc i) < length (x # y # r)" by simp
    from "3.prems"[rule_format, OF this] show "(y # r) ! i \<notin> R \<or> (y # r) ! Suc i \<notin> R"
      by simp
  qed
  from "3.IH"[OF this] have "no_adjacent R (y # r)" .
  moreover have "x \<notin> R \<or> y \<notin> R" using "3.prems"[rule_format, of 0] by simp
  ultimately show ?case by simp
qed simp_all

lemma remove_loop_filter:
  "distinct (pre @ suf) \<Longrightarrow> no_adjacent R suf \<Longrightarrow>
   fst (remove_loop R (length pre) (pre @ suf) ex) = pre @ filter (\<lambda>b. b \<notin> R) suf"
proof (induction suf arbitrary: pre ex rule: length_induct)
  case (1 suf)
  show ?case
  proof (cases suf)
    case Nil
    then show ?thesis by (simp add: remove_loop.simps)
  next
    case (Cons b rest)
    have nth: "(pre @ suf) ! length pre = b" using Cons by simp
    have lt: "length pre < length (pre @ suf)" using Cons by simp
    show ?thesis
    proof (cases "b \<in> R")
      case False
      have d: "distinct ((pre @ [b]) @ rest)" using "1.prems"(1) Cons by simp
      have na: "no_adjacent R rest" using "1.prems"(2) Cons by (cases rest) auto
      have "fst (remove_loop R (length pre) (pre @ suf) ex)
            = fst (remove_loop R (length (pre @ [b])) ((pre @ [b]) @ rest) (insert b ex))"
        using False nth lt Cons by (subst remove_loop.simps) simp
      also have "\<dots> = (pre @ [b]) @ filter (\<lambda>b. b \<notin> R) rest"
        using "1.IH"[rule_format, of rest "pre @ [b]"] d na Cons by simp
      finally show ?thesis using False Cons by simp
    next
      case True
      have rm: "remove1 b (pre @ suf) = pre @ rest"
        using "1.prems"(1) Cons by (simp add: remove1_append)
      have step: "fst (remove_loop R (length pre) (pre @ suf) ex)
            = fst (remove_loop R (Suc (length pre)) (pre @ rest) ex)"
        using True nth lt rm by (subst remove_loop.simps) simp
      show ?thesis
      proof (cases rest)
        case Nil
        then show ?thesis using step True Cons by (simp add: remove_loop.simps)
      next
        case (Cons c rest')
        have cR: "c \<notin> R" and na: "no_adjacent R rest'"
          using "1.prems"(2) True \<open>suf = b # rest\<close> Cons by (auto, cases rest', auto)
        have d: "distinct ((pre @ [c]) @ rest')" using "1.prems"(1) \<open>suf = b # rest\<close> Cons by simp
        have "fst (remove_loop R (Suc (length pre)) (pre @ rest) ex)
            = fst (remove_loop R (length (pre @ [c])) ((pre @ [c]) @ rest') ex)"
          using Cons by simp
        also have "\<dots> = (pre @ [c]) @ filter (\<lambda>b. b \<notin> R) rest'"
          using "1.IH"[rule_format, of rest' "pre @ [c]"] d na Cons \<open>suf = b # rest\<close> by simp
        finally show ?thesis using step True cR Cons \<open>suf = b # rest\<close> by simp
      qed
    qed
  qed
qed

lemma remove_loop_existing:
  "ex \<subseteq> S \<Longrightarrow> set bases \<subseteq> S \<Longrightarrow> snd (remove_loop R i bases ex) \<subseteq> S"
proof (induction R i bases ex rule: remove_loop.induct)
  case (1 R i bases ex)
  show ?case
  proof (cases "i < length bases")
    case False
    then show ?thesis using "1.prems" by (simp add: remove_loop.simps)
  next
    case True
    show ?thesis
    proof (cases "bases ! i \<in> R")
      case inR: True
      have "set (remove1 (bases ! i) bases) \<subseteq> S"
        using "1.prems"(2) set_remove1_subset by fast
      from "1.IH"(1)[OF True inR "1.prems"(1) this] show ?thesis
        using True inR by (subst remove_loop.simps) simp
    next
      case notR: False
      have "insert (bases ! i) ex \<subseteq> S" using "1.prems" True by auto
      from "1.IH"(2)[OF True notR this "1.prems"(2)] show ?thesis
        using True notR by (subst remove_loop.simps) simp
    qed
  qed
qed

lemma fold_index_notin:
  "c \<notin> set ys \<Longrightarrow>
   fold (\<lambda>(i, b) index. index(b \<mapsto> i)) (enumerate n ys) m c = m c"
  by (induction ys arbitrary: n m) auto

lemma index_of_last:
  "c \<notin> set ys \<Longrightarrow> index_of (xs @ c # ys) c = Some (length xs)"
  by (simp add: index_of_def enumerate_append_eq fold_index_notin)

lemma apply_added_append:
  "apply_added ex bs (g1 @ g2) =
     (case apply_added ex bs g1 of Inl e \<Rightarrow> Inl e | Inr bs' \<Rightarrow> apply_added ex bs' g2)"
proof (induction g1 arbitrary: bs)
  case Nil
  then show ?case by simp
next
  case (Cons g g1)
  obtain nb pos where g: "g = (nb, pos)" by (cases g)
  show ?case unfolding g by (cases pos) (auto simp: Cons.IH split: option.splits)
qed

lemma apply_added_before:
  assumes "apply_added ex bs added = Inr (pf @ c # ys)" and "c \<notin> set ys"
    and "\<forall>b\<in>set refs. b \<notin> ex"
  shows "apply_added ex bs (added @ [(refs, BEFORE c)]) = Inr (pf @ refs @ c # ys)"
proof -
  have "filter (\<lambda>b. b \<notin> ex) refs = refs" using assms(3) by (simp add: filter_id_conv)
  then show ?thesis
    using assms(1,2) by (simp add: apply_added_append index_of_last)
qed

lemma apply_added_last:
  assumes "apply_added ex bs added = Inr cur" and "\<forall>b\<in>set refs. b \<notin> ex"
  shows "apply_added ex bs (added @ [(refs, LAST)]) = Inr (cur @ refs)"
proof -
  have "filter (\<lambda>b. b \<notin> ex) refs = refs" using assms(2) by (simp add: filter_id_conv)
  then show ?thesis using assms(1) by (simp add: apply_added_append)
qed

lemma delta_loop_roundtrip:
  assumes "distinct common" and "distinct N" and "N = pf @ refs @ rest"
    and "j < length common"
    and "filter (\<lambda>b. b \<in> set common) rest = drop j common"
    and "apply_added ex common added = Inr (pf @ drop j common)"
    and "\<forall>b\<in>set refs. b \<notin> ex"
    and "\<forall>b\<in>set rest. b \<notin> set common \<longrightarrow> b \<notin> ex"
    and "aset = {b \<in> set (pf @ refs). b \<notin> set common}"
    and "delta_loop common rest j added refs aset = (added', refs', aset')"
  shows "apply_added ex common
           (if refs' @ filter (\<lambda>b. b \<notin> aset' \<and> b \<notin> set common) N \<noteq> []
            then added' @ [(refs' @ filter (\<lambda>b. b \<notin> aset' \<and> b \<notin> set common) N, LAST)]
            else added') = Inr N"
  using assms(3-10)
proof (induction rest arbitrary: j added refs aset pf)
  case Nil
  then show ?case by simp
next
  case (Cons base rest)
  have dj: "drop j common = common ! j # drop (Suc j) common"
    using Cons.prems(2) by (simp add: Cons_nth_drop_Suc)
  show ?case
  proof (cases "common ! j = base")
    case False
    have notc: "base \<notin> set common"
    proof
      assume "base \<in> set common"
      then have "filter (\<lambda>b. b \<in> set common) (base # rest)
                   = base # filter (\<lambda>b. b \<in> set common) rest" by simp
      with Cons.prems(3) dj False show False by simp
    qed
    have call: "delta_loop common rest j added (refs @ [base]) (insert base aset)
                  = (added', refs', aset')"
      using Cons.prems(8) False by simp
    have "apply_added ex common
           (if refs' @ filter (\<lambda>b. b \<notin> aset' \<and> b \<notin> set common) N \<noteq> []
            then added' @ [(refs' @ filter (\<lambda>b. b \<notin> aset' \<and> b \<notin> set common) N, LAST)]
            else added') = Inr N"
    proof (rule Cons.IH[of pf "refs @ [base]" j added "insert base aset"])
      show "N = pf @ (refs @ [base]) @ rest" using Cons.prems(1) by simp
      show "j < length common" by (rule Cons.prems(2))
      show "filter (\<lambda>b. b \<in> set common) rest = drop j common"
        using Cons.prems(3) notc by simp
      show "apply_added ex common added = Inr (pf @ drop j common)" by (rule Cons.prems(4))
      show "\<forall>b\<in>set (refs @ [base]). b \<notin> ex" using Cons.prems(5,6) notc by simp
      show "\<forall>b\<in>set rest. b \<notin> set common \<longrightarrow> b \<notin> ex" using Cons.prems(6) by simp
      show "insert base aset = {b \<in> set (pf @ refs @ [base]). b \<notin> set common}"
        using Cons.prems(7) notc by auto
      show "delta_loop common rest j added (refs @ [base]) (insert base aset)
              = (added', refs', aset')" by (rule call)
    qed
    then show ?thesis .
  next
    case True
    let ?added = "if refs \<noteq> [] then added @ [(refs, BEFORE (common ! j))] else added"
    have inc: "base \<in> set common" using True Cons.prems(2) nth_mem by blast
    have frest: "filter (\<lambda>b. b \<in> set common) rest = drop (Suc j) common"
      using Cons.prems(3) dj inc by simp
    have "distinct (drop j common)" using assms(1) by simp
    then have fresh: "base \<notin> set (drop (Suc j) common)" using dj True by simp
    have cur: "apply_added ex common added = Inr (pf @ base # drop (Suc j) common)"
      using Cons.prems(4) dj True by simp
    have A2: "apply_added ex common ?added = Inr (pf @ refs @ base # drop (Suc j) common)"
    proof (cases "refs = []")
      case True
      then show ?thesis using cur by simp
    next
      case False
      then show ?thesis
        using apply_added_before[OF cur fresh Cons.prems(5)] True by simp
    qed
    show ?thesis
    proof (cases "Suc j \<ge> length common")
      case False
      have call: "delta_loop common rest (Suc j) ?added [] aset = (added', refs', aset')"
        using Cons.prems(8) True False by (auto split: if_splits)
      show ?thesis
      proof (rule Cons.IH[of "pf @ refs @ [base]" "[]" "Suc j" ?added aset])
        show "N = (pf @ refs @ [base]) @ [] @ rest" using Cons.prems(1) by simp
        show "Suc j < length common" using False by simp
        show "filter (\<lambda>b. b \<in> set common) rest = drop (Suc j) common" by (rule frest)
        show "apply_added ex common ?added = Inr ((pf @ refs @ [base]) @ drop (Suc j) common)"
          using A2 by simp
        show "\<forall>b\<in>set []. b \<notin> ex" by simp
        show "\<forall>b\<in>set rest. b \<notin> set common \<longrightarrow> b \<notin> ex" using Cons.prems(6) by simp
        show "aset = {b \<in> set ((pf @ refs @ [base]) @ []). b \<notin> set common}"
          using Cons.prems(7) inc by auto
        show "delta_loop common rest (Suc j) ?added [] aset = (added', refs', aset')"
          by (rule call)
      qed
    next
      case brk: True
      have res: "added' = ?added" "refs' = []" "aset' = aset"
        using Cons.prems(8) True brk by (auto split: if_splits)
      have "drop (Suc j) common = []" using brk by simp
      with frest have nocommon: "\<forall>b\<in>set rest. b \<notin> set common"
        by (simp add: filter_empty_conv)
      have dN: "distinct (pf @ refs @ base # rest)" using assms(2) Cons.prems(1) by simp
      have f1: "filter (\<lambda>b. b \<notin> aset \<and> b \<notin> set common) (pf @ refs) = []"
        using Cons.prems(7) by (auto simp: filter_empty_conv)
      have "\<forall>b\<in>set rest. b \<notin> aset" using Cons.prems(7) dN by auto
      then have f2: "filter (\<lambda>b. b \<notin> aset \<and> b \<notin> set common) rest = rest"
        using nocommon by (simp add: filter_id_conv)
      have tail: "filter (\<lambda>b. b \<notin> aset \<and> b \<notin> set common) N = rest"
        using f1 f2 inc Cons.prems(1) by simp
      have A3: "apply_added ex common ?added = Inr (pf @ refs @ [base])"
        using A2 \<open>drop (Suc j) common = []\<close> by simp
      have restex: "\<forall>b\<in>set rest. b \<notin> ex" using Cons.prems(6) nocommon by simp
      show ?thesis
      proof (cases "rest = []")
        case True
        then show ?thesis unfolding res tail using A3 Cons.prems(1) by simp
      next
        case False
        then show ?thesis unfolding res tail
          using apply_added_last[OF A3 restex] Cons.prems(1) by simp
      qed
    qed
  qed
qed

lemma reconstruct_roundtrip:
  assumes "distinct old" and "distinct new"
    and "filter (\<lambda>b. b \<in> set new) old = filter (\<lambda>b. b \<in> set old) new"
    and "\<forall>i. Suc i < length old \<longrightarrow> old ! i \<in> set new \<or> old ! Suc i \<in> set new"
  shows "reconstruct (fst (delta_bases old new)) (snd (delta_bases old new)) old = Inr new"
proof -
  let ?R = "set old - set new"
  let ?common = "filter (\<lambda>b. b \<in> set new) old"
  obtain bases' ex where rl: "remove_loop ?R 0 old {} = (bases', ex)"
    by (cases "remove_loop ?R 0 old {}") auto
  have "no_adjacent ?R old" using assms(4) by (intro no_adjacent_nth) auto
  then have "fst (remove_loop ?R (length ([] :: 'a list)) ([] @ old) {}) = [] @ filter (\<lambda>b. b \<notin> ?R) old"
    using assms(1) by (intro remove_loop_filter) auto
  moreover have "filter (\<lambda>b. b \<notin> ?R) old = ?common" by (rule filter_cong) auto
  ultimately have b': "bases' = ?common" using rl by simp
  have "snd (remove_loop ?R 0 old {}) \<subseteq> set old" by (rule remove_loop_existing) auto
  then have ex: "ex \<subseteq> set old" using rl by simp
  have fst_d: "fst (delta_bases old new) = ?R"
    by (simp add: delta_bases_def Let_def split: prod.splits)
  have rec: "reconstruct (fst (delta_bases old new)) (snd (delta_bases old new)) old
               = apply_added ex ?common (snd (delta_bases old new))"
    unfolding fst_d reconstruct_def rl b' by simp
  show ?thesis
  proof (cases "?common = []")
    case True
    then have "\<forall>b\<in>set new. b \<notin> ex" using ex by (auto simp: filter_empty_conv)
    then have "filter (\<lambda>b. b \<notin> ex) new = new" by (simp add: filter_id_conv)
    then show ?thesis unfolding rec using True by (simp add: delta_bases_no_common)
  next
    case False
    obtain added refs aset where
      l: "delta_loop ?common new 0 [] [] {} = (added, refs, aset)"
      by (cases "delta_loop ?common new 0 [] [] {}") auto
    have "filter (\<lambda>b. b \<in> set ?common) new = filter (\<lambda>b. b \<in> set old) new"
      by (rule filter_cong) auto
    then have f: "filter (\<lambda>b. b \<in> set ?common) new = drop 0 ?common"
      using assms(3) by simp
    have "apply_added ex ?common
           (if refs @ filter (\<lambda>b. b \<notin> aset \<and> b \<notin> set ?common) new \<noteq> []
            then added @ [(refs @ filter (\<lambda>b. b \<notin> aset \<and> b \<notin> set ?common) new, LAST)]
            else added) = Inr new"
    proof (rule delta_loop_roundtrip[where pf = "[]" and refs = "[]" and rest = new and j = 0
            and added = "[]" and aset = "{}"])
      show "distinct ?common" using assms(1) by simp
      show "distinct new" by (rule assms(2))
      show "new = [] @ [] @ new" by simp
      show "0 < length ?common" using False by simp
      show "filter (\<lambda>b. b \<in> set ?common) new = drop 0 ?common" by (rule f)
      show "apply_added ex ?common [] = Inr ([] @ drop 0 ?common)" by simp
      show "\<forall>b\<in>set []. b \<notin> ex" by simp
      show "\<forall>b\<in>set new. b \<notin> set ?common \<longrightarrow> b \<notin> ex" using ex by auto
      show "{} = {b \<in> set ([] @ []). b \<notin> set ?common}" by simp
      show "delta_loop ?common new 0 [] [] {} = (added, refs, aset)" by (rule l)
    qed
    then show ?thesis unfolding rec by (simp add: delta_bases_unfold[OF l False])
  qed
qed

text \<open>
  Claim C2 as stated fails for a reordering: for \<open>old = [A, B]\<close> and \<open>new = [B, A]\<close> the
  script is the one group \<open>([B], BEFORE A)\<close>, whose base is already present and is
  skipped, so the base list that \<open>apply\<close> stores stays \<open>[A, B]\<close>. It also fails where the
  removal loop skips a base: from \<open>[A, B, C]\<close> to \<open>[C]\<close> the result is \<open>[B, C]\<close>. And for
  a class with the default base \<open>Object\<close> it fails where the default base is handled
  apart: \<open>old = [Object]\<close> is emptied first, so for \<open>new = [Object, A]\<close> the result is
  \<open>[A]\<close> and for \<open>new = [A, Object]\<close> the anchor is not found; and an empty \<open>new\<close> is
  answered with \<open>[Object]\<close>.
\<close>

theorem roundtrip_fails:
  "delta_bases [''A'', ''B''] [''B'', ''A''] = ({}, [([''B''], BEFORE ''A'')]) \<and>
   rebase_bases None None [''A'', ''B'']
     (fst (delta_bases [''A'', ''B''] [''B'', ''A'']))
     (snd (delta_bases [''A'', ''B''] [''B'', ''A'']))
     = Inr [''A'', ''B''] \<and>
   rebase_bases None None [''A'', ''B'']
     (fst (delta_bases [''A'', ''B''] [''B'', ''A'']))
     (snd (delta_bases [''A'', ''B''] [''B'', ''A'']))
     \<noteq> Inr [''B'', ''A''] \<and>
   rebase_bases None None [''A'', ''B'', ''C'']
     (fst (delta_bases [''A'', ''B'', ''C''] [''C'']))
     (snd (delta_bases [''A'', ''B'', ''C''] [''C'']))
     = Inr [''B'', ''C''] \<and>
   rebase_bases (Some ''Object'') (Some ''Object'') [''Object'']
     (fst (delta_bases [''Object''] [''Object'', ''A'']))
     (snd (delta_bases [''Object''] [''Object'', ''A'']))
     = Inr [''A''] \<and>
   rebase_bases (Some ''Object'') (Some ''Object'') [''Object'']
     (fst (delta_bases [''Object''] [''A'', ''Object'']))
     (snd (delta_bases [''Object''] [''A'', ''Object'']))
     = Inl (KeyError ''Object'') \<and>
   rebase_bases (Some ''Object'') (Some ''Object'') [''A'']
     (fst (delta_bases [''A''] []))
     (snd (delta_bases [''A''] []))
     = Inr [''Object'']"
  by code_simp

text \<open>
  Claim C2, amended. Let \<open>old\<close> and \<open>new\<close> be duplicate-free, let the names they share
  stand in the same relative order in both, and let no two neighbours in \<open>old\<close> both be
  absent from \<open>new\<close>. Where the class has a default base, let moreover \<open>new\<close> not be
  empty, and let \<open>new\<close> not hold the default base if \<open>old\<close> is exactly the one-element
  list of the default base. Then the edit script of \<open>delta_bases(old, new)\<close>, applied to
  \<open>old\<close> by \<open>RebaseInheritingObject.apply\<close>, stores exactly \<open>new\<close> as the base list.
\<close>

theorem rebase_roundtrip:
  assumes "distinct old" and "distinct new"
    and "filter (\<lambda>b. b \<in> set new) old = filter (\<lambda>b. b \<in> set old) new"
    and "\<forall>i. Suc i < length old \<longrightarrow> old ! i \<in> set new \<or> old ! Suc i \<in> set new"
    and "\<And>d. default_base_name = Some d \<Longrightarrow> old = [d] \<Longrightarrow> d \<notin> set new"
    and "default_name \<noteq> None \<Longrightarrow> new \<noteq> []"
  shows "rebase_bases default_base_name default_name old
           (fst (delta_bases old new)) (snd (delta_bases old new)) = Inr new"
proof -
  let ?bases0 = "case default_base_name of
                   Some default_base \<Rightarrow> if old = [default_base] then [] else old
                 | None \<Rightarrow> old"
  have rec: "reconstruct (fst (delta_bases old new)) (snd (delta_bases old new)) ?bases0
               = Inr new"
  proof (cases "\<exists>d. default_base_name = Some d \<and> old = [d]")
    case False
    then have "?bases0 = old" by (auto split: option.splits)
    then show ?thesis using reconstruct_roundtrip[OF assms(1-4)] by simp
  next
    case True
    then obtain d where d: "default_base_name = Some d" "old = [d]" by blast
    then have "d \<notin> set new" using assms(5) by blast
    then have nc: "filter (\<lambda>b. b \<in> set new) old = []" using d by simp
    have "?bases0 = []" using d by simp
    moreover have "reconstruct (fst (delta_bases old new)) (snd (delta_bases old new)) []
                     = Inr new"
      by (simp add: reconstruct_Nil delta_bases_no_common[OF nc])
    ultimately show ?thesis by simp
  qed
  have "(if new = [] then (case default_name of Some d \<Rightarrow> [d] | None \<Rightarrow> []) else new) = new"
    using assms(6) by (cases default_name) auto
  then show ?thesis using rec by (simp add: rebase_bases_def)
qed

theorem rebase_roundtrip_witness:
  "distinct [''A'', ''B'', ''C''] \<and> distinct [''D'', ''B'', ''E''] \<and>
   filter (\<lambda>b. b \<in> set [''D'', ''B'', ''E'']) [''A'', ''B'', ''C'']
     = filter (\<lambda>b. b \<in> set [''A'', ''B'', ''C'']) [''D'', ''B'', ''E''] \<and>
   delta_bases [''A'', ''B'', ''C''] [''D'', ''B'', ''E'']
     = ({''A'', ''C''}, [([''D''], BEFORE ''B''), ([''E''], LAST)]) \<and>
   rebase_bases (Some ''Object'') (Some ''Object'') [''A'', ''B'', ''C'']
     (fst (delta_bases [''A'', ''B'', ''C''] [''D'', ''B'', ''E'']))
     (snd (delta_bases [''A'', ''B'', ''C''] [''D'', ''B'', ''E'']))
     = Inr [''D'', ''B'', ''E''] \<and>
   ''Object'' \<notin> set [''A''] \<and>
   delta_bases [''Object''] [''A''] = ({''Object''}, [([''A''], LAST)]) \<and>
   rebase_bases (Some ''Object'') (Some ''Object'') [''Object'']
     (fst (delta_bases [''Object''] [''A''])) (snd (delta_bases [''Object''] [''A'']))
     = Inr [''A'']"
proof -
  have d1: "distinct [''A'', ''B'', ''C'']" and d2: "distinct [''D'', ''B'', ''E'']"
    by simp_all
  have f: "filter (\<lambda>b. b \<in> set [''D'', ''B'', ''E'']) [''A'', ''B'', ''C'']
     = filter (\<lambda>b. b \<in> set [''A'', ''B'', ''C'']) [''D'', ''B'', ''E'']"
    by simp
  have n: "\<forall>i. Suc i < length [''A'', ''B'', ''C''] \<longrightarrow>
     [''A'', ''B'', ''C''] ! i \<in> set [''D'', ''B'', ''E''] \<or>
     [''A'', ''B'', ''C''] ! Suc i \<in> set [''D'', ''B'', ''E'']"
    by (auto simp: less_Suc_eq)
  have e: "delta_bases [''A'', ''B'', ''C''] [''D'', ''B'', ''E'']
     = ({''A'', ''C''}, [([''D''], BEFORE ''B''), ([''E''], LAST)])"
    by code_simp
  have r1: "rebase_bases (Some ''Object'') (Some ''Object'') [''A'', ''B'', ''C'']
     (fst (delta_bases [''A'', ''B'', ''C''] [''D'', ''B'', ''E'']))
     (snd (delta_bases [''A'', ''B'', ''C''] [''D'', ''B'', ''E'']))
     = Inr [''D'', ''B'', ''E'']"
    by (rule rebase_roundtrip[OF d1 d2 f n]) simp_all
  have o: "''Object'' \<notin> set [''A'']" by simp
  have e2: "delta_bases [''Object''] [''A''] = ({''Object''}, [([''A''], LAST)])"
    by code_simp
  have r2: "rebase_bases (Some ''Object'') (Some ''Object'') [''Object'']
     (fst (delta_bases [''Object''] [''A''])) (snd (delta_bases [''Object''] [''A'']))
     = Inr [''A'']"
    by (rule rebase_roundtrip) (use o in simp_all)
  from d1 d2 f e r1 o e2 r2 show ?thesis by blast
qed

section \<open>Properties of the cascade of a rebase\<close>

lemma cascade_sound:
  "cascade fuel ds s c = Some (Inr (s', c')) \<Longrightarrow>
     s_bases s' = s_bases s \<and>
     (\<forall>x. x \<in> set ds \<or> ancestors_fresh fuel s x \<longrightarrow> ancestors_fresh fuel s' x) \<and>
     (\<forall>d\<in>set ds. \<exists>mro. compute_mro fuel (s_bases s) d = Some (Inr mro) \<and>
                         Alter d (Some (tl mro)) \<in> set (subcommands c')) \<and>
     set (subcommands c) \<subseteq> set (subcommands c') \<and>
     (\<forall>x. x \<notin> set ds \<longrightarrow> s_ancestors s' x = s_ancestors s x)"
proof (induction ds arbitrary: s c)
  case Nil
  then show ?case by simp
next
  case (Cons d ds)
  from Cons.prems obtain mro where m: "compute_mro fuel (s_bases s) d = Some (Inr mro)"
    by (auto split: option.splits sum.splits)
  let ?s1 = "s\<lparr>s_ancestors := (s_ancestors s)(d \<mapsto> tl mro)\<rparr>"
  let ?c1 = "c\<lparr>subcommands := subcommands c @ [Alter d (Some (tl mro))]\<rparr>"
  have call: "cascade fuel ds ?s1 ?c1 = Some (Inr (s', c'))" using Cons.prems m by simp
  note IH = Cons.IH[OF call]
  have b: "s_bases s' = s_bases s" using IH by simp
  have f1: "ancestors_fresh fuel ?s1 d" using m by (simp add: ancestors_fresh_def)
  have f2: "\<And>x. x \<noteq> d \<Longrightarrow> ancestors_fresh fuel s x \<Longrightarrow> ancestors_fresh fuel ?s1 x"
    by (auto simp: ancestors_fresh_def split: option.splits sum.splits)
  have fresh: "\<forall>x. x \<in> set (d # ds) \<or> ancestors_fresh fuel s x \<longrightarrow> ancestors_fresh fuel s' x"
  proof (intro allI impI)
    fix x assume "x \<in> set (d # ds) \<or> ancestors_fresh fuel s x"
    then have "x \<in> set ds \<or> ancestors_fresh fuel ?s1 x" using f1 f2 by (cases "x = d") auto
    then show "ancestors_fresh fuel s' x" using IH by blast
  qed
  have alt: "\<forall>d'\<in>set (d # ds). \<exists>mro. compute_mro fuel (s_bases s) d' = Some (Inr mro) \<and>
                         Alter d' (Some (tl mro)) \<in> set (subcommands c')"
  proof
    fix d' assume d': "d' \<in> set (d # ds)"
    show "\<exists>mro. compute_mro fuel (s_bases s) d' = Some (Inr mro) \<and>
                         Alter d' (Some (tl mro)) \<in> set (subcommands c')"
    proof (cases "d' \<in> set ds")
      case True
      then show ?thesis using IH by simp
    next
      case False
      then have "d' = d" using d' by simp
      moreover have "Alter d (Some (tl mro)) \<in> set (subcommands c')" using IH by auto
      ultimately show ?thesis using m by blast
    qed
  qed
  have sub: "set (subcommands c) \<subseteq> set (subcommands c')" using IH by auto
  have keep: "\<forall>x. x \<notin> set (d # ds) \<longrightarrow> s_ancestors s' x = s_ancestors s x" using IH by auto
  show ?case using b fresh alt sub keep by blast
qed

text \<open>
  Claim C3, amended. When \<open>RebaseInheritingObject.apply\<close> completes, the cached
  \<open>ancestors\<close> of the entity are its fresh linearization without the first element, its
  \<open>bases\<close> are the reconstructed base list, and no other entity's \<open>bases\<close> change. If
  the command carries no alter sub-command at all, the same holds for the \<open>ancestors\<close> of
  every descendant, and for each of them an alter sub-command recording the new value
  has been added. If the command carries at least one alter sub-command, no descendant
  is recomputed: the command is unchanged and the \<open>ancestors\<close> of every other entity are
  what they were.
\<close>

theorem rebase_refreshes_ancestors:
  assumes "rebase_apply fuel default_base_name default_name descendants cmd schema scls
             = Some (Inr (schema', cmd'))"
  shows "ancestors_fresh fuel schema' scls \<and>
         rebase_bases default_base_name default_name (s_bases schema scls)
            (removed_bases cmd) (added_bases cmd) = Inr (s_bases schema' scls) \<and>
         (\<forall>x. x \<noteq> scls \<longrightarrow> s_bases schema' x = s_bases schema x) \<and>
         (subcommands cmd = [] \<longrightarrow>
            (\<forall>d\<in>set descendants.
               ancestors_fresh fuel schema' d \<and>
               (\<exists>mro. compute_mro fuel (s_bases schema') d = Some (Inr mro) \<and>
                      Alter d (Some (tl mro)) \<in> set (subcommands cmd')))) \<and>
         (subcommands cmd \<noteq> [] \<longrightarrow>
            cmd' = cmd \<and> (\<forall>d. d \<noteq> scls \<longrightarrow> s_ancestors schema' d = s_ancestors schema d))"
proof -
  from assms obtain bases where
    rb: "rebase_bases default_base_name default_name (s_bases schema scls)
           (removed_bases cmd) (added_bases cmd) = Inr bases"
    by (auto simp: rebase_apply_def split: sum.splits)
  let ?s1 = "schema\<lparr>s_bases := (s_bases schema)(scls := bases)\<rparr>"
  from assms rb obtain mro where
    m: "compute_mro fuel (s_bases ?s1) scls = Some (Inr mro)"
    by (auto simp: rebase_apply_def Let_def split: option.splits sum.splits)
  let ?s2 = "?s1\<lparr>s_ancestors := (s_ancestors ?s1)(scls \<mapsto> tl mro)\<rparr>"
  have fresh2: "ancestors_fresh fuel ?s2 scls" using m by (simp add: ancestors_fresh_def)
  show ?thesis
  proof (cases "descendants \<noteq> [] \<and> subcommands cmd = []")
    case True
    then have "cascade fuel descendants ?s2 cmd = Some (Inr (schema', cmd'))"
      using assms rb m by (simp add: rebase_apply_def Let_def)
    note C = cascade_sound[OF this]
    have b: "s_bases schema' = s_bases ?s2" using C by simp
    have "ancestors_fresh fuel schema' scls" using C fresh2 by blast
    moreover have "s_bases schema' scls = bases" using b by simp
    moreover have "\<forall>x. x \<noteq> scls \<longrightarrow> s_bases schema' x = s_bases schema x" using b by simp
    moreover have "\<forall>d\<in>set descendants.
               ancestors_fresh fuel schema' d \<and>
               (\<exists>mro. compute_mro fuel (s_bases schema') d = Some (Inr mro) \<and>
                      Alter d (Some (tl mro)) \<in> set (subcommands cmd'))"
      using C unfolding b by blast
    ultimately show ?thesis using True rb by simp
  next
    case False
    have "Some (Inr (?s2, cmd)) = Some (Inr (schema', cmd'))"
      using assms rb m False by (auto simp: rebase_apply_def Let_def)
    then have eq: "schema' = ?s2" "cmd' = cmd" by auto
    have "ancestors_fresh fuel schema' scls" using fresh2 eq by simp
    moreover have "s_bases schema' scls = bases" using eq by simp
    moreover have "\<forall>x. x \<noteq> scls \<longrightarrow> s_bases schema' x = s_bases schema x" using eq by simp
    moreover have "\<forall>d. d \<noteq> scls \<longrightarrow> s_ancestors schema' d = s_ancestors schema d"
      using eq by simp
    moreover have "subcommands cmd = [] \<longrightarrow> descendants = []" using False by blast
    ultimately show ?thesis using eq(2) rb by auto
  qed
qed

theorem rebase_refreshes_ancestors_witness:
  "(case rebase_apply 3 None None [''C1'', ''C2''] (rebase_P []) family_schema ''P'' of
      Some (Inr (schema', cmd')) \<Rightarrow>
        s_bases schema' ''P'' = [''B''] \<and>
        s_ancestors schema' ''P'' = Some [''B''] \<and>
        s_ancestors schema' ''C1'' = Some [''P'', ''B''] \<and>
        s_ancestors schema' ''C2'' = Some [''P'', ''B''] \<and>
        Alter ''C2'' (Some [''P'', ''B'']) \<in> set (subcommands cmd')
    | _ \<Rightarrow> False)"
proof -
  have "(case rebase_apply 3 None None [''C1'', ''C2''] (rebase_P []) family_schema ''P'' of
           Some (Inr p) \<Rightarrow> True | _ \<Rightarrow> False)"
    by code_simp
  then obtain schema' cmd' where
    r: "rebase_apply 3 None None [''C1'', ''C2''] (rebase_P []) family_schema ''P''
          = Some (Inr (schema', cmd'))"
    by (auto split: option.splits sum.splits)
  note T = rebase_refreshes_ancestors[OF r]
  have rb: "rebase_bases None None (s_bases family_schema ''P'')
              (removed_bases (rebase_P [])) (added_bases (rebase_P [])) = Inr [''B'']"
    by code_simp
  have bP: "s_bases schema' ''P'' = [''B'']" using T rb by simp
  have "\<And>x. s_bases schema' x = (if x = ''P'' then [''B''] else s_bases family_schema x)"
    using T bP by simp
  then have b: "s_bases schema' = (\<lambda>x. if x = ''P'' then [''B''] else s_bases family_schema x)"
    by (rule ext)
  have none: "subcommands (rebase_P []) = []" by (simp add: rebase_P_def)
  have mP: "compute_mro 3 (\<lambda>x. if x = ''P'' then [''B''] else s_bases family_schema x) ''P''
              = Some (Inr [''P'', ''B''])"
    by code_simp
  have m1: "compute_mro 3 (\<lambda>x. if x = ''P'' then [''B''] else s_bases family_schema x) ''C1''
              = Some (Inr [''C1'', ''P'', ''B''])"
    by code_simp
  have m2: "compute_mro 3 (\<lambda>x. if x = ''P'' then [''B''] else s_bases family_schema x) ''C2''
              = Some (Inr [''C2'', ''P'', ''B''])"
    by code_simp
  have "ancestors_fresh 3 schema' ''P''" using T by simp
  then have aP: "s_ancestors schema' ''P'' = Some [''B'']"
    unfolding ancestors_fresh_def b mP by simp
  have d: "\<forall>d\<in>set [''C1'', ''C2''].
             ancestors_fresh 3 schema' d \<and>
             (\<exists>mro. compute_mro 3 (s_bases schema') d = Some (Inr mro) \<and>
                    Alter d (Some (tl mro)) \<in> set (subcommands cmd'))"
    using T none by blast
  have a1: "s_ancestors schema' ''C1'' = Some [''P'', ''B'']"
    using d unfolding ancestors_fresh_def b by (simp add: m1)
  have a2: "s_ancestors schema' ''C2'' = Some [''P'', ''B'']"
    using d unfolding ancestors_fresh_def b by (simp add: m2)
  have c2: "Alter ''C2'' (Some [''P'', ''B'']) \<in> set (subcommands cmd')"
    using d unfolding b by (simp add: m2)
  show ?thesis unfolding r using bP aP a1 a2 c2 by simp
qed

text \<open>
  Claim C3 as stated fails per descendant: the rebase of \<open>P\<close> from \<open>A\<close> to \<open>B\<close> carries an
  alter sub-command for \<open>C1\<close> (already applied to the schema) and none for \<open>C2\<close>. The
  guard at line 285 then skips the whole loop: the \<open>ancestors\<close> of \<open>C2\<close> stay
  \<open>[P, A]\<close> although its linearization is now \<open>[C2, P, B]\<close>, and no alter sub-command
  for \<open>C2\<close> is added.
\<close>

theorem stale_descendant:
  "(case rebase_apply 3 None None [''C1'', ''C2'']
           (rebase_P [Alter ''C1'' (Some [''P'', ''B''])])
           (family_schema\<lparr>s_ancestors :=
              (s_ancestors family_schema)(''C1'' \<mapsto> [''P'', ''B''])\<rparr>) ''P'' of
      Some (Inr (schema', cmd')) \<Rightarrow>
        s_ancestors schema' ''C2'' = Some [''P'', ''A''] \<and>
        compute_mro 3 (s_bases schema') ''C2'' = Some (Inr [''C2'', ''P'', ''B'']) \<and>
        \<not> ancestors_fresh 3 schema' ''C2'' \<and>
        subcommands cmd' = [Alter ''C1'' (Some [''P'', ''B''])]
    | _ \<Rightarrow> False)"
  by code_simp


section \<open>Properties of the reference merge engine\<close>

lemma update_set_subset: "set (AList.update k v al) \<subseteq> insert (k, v) (set al)"
  by (induction al) auto

lemma ancestry_fold:
  "distinct (map fst acc) \<Longrightarrow> \<forall>p\<in>set acc. snd p \<in> S \<and> f (snd p) = fst p \<Longrightarrow> set xs \<subseteq> S \<Longrightarrow>
   distinct (map fst (fold (\<lambda>pref. AList.update (f pref) pref) xs acc)) \<and>
   fst ` set (fold (\<lambda>pref. AList.update (f pref) pref) xs acc) = fst ` set acc \<union> f ` set xs \<and>
   (\<forall>p\<in>set (fold (\<lambda>pref. AList.update (f pref) pref) xs acc). snd p \<in> S \<and> f (snd p) = fst p)"
proof (induction xs arbitrary: acc)
  case Nil
  then show ?case by simp
next
  case (Cons x xs)
  let ?acc = "AList.update (f x) x acc"
  have d: "distinct (map fst ?acc)" using Cons.prems(1) by (rule distinct_update)
  have p: "\<forall>p\<in>set ?acc. snd p \<in> S \<and> f (snd p) = fst p"
    using Cons.prems(2,3) update_set_subset[of "f x" x acc] by auto
  have s: "set xs \<subseteq> S" using Cons.prems(3) by simp
  from Cons.IH[OF d p s] show ?case by (auto simp: dom_update)
qed

lemma ancestry_of_props:
  "distinct (map fst (ancestry_of cls candidates)) \<and>
   set (map fst (ancestry_of cls candidates)) = backref cls ` set candidates \<and>
   (\<forall>p\<in>set (ancestry_of cls candidates). snd p \<in> set candidates \<and> backref cls (snd p) = fst p)"
  using ancestry_fold[of "[]" "set candidates" "backref cls" candidates]
  by (simp add: ancestry_of_def)

lemma ancestry_of_length:
  "length (ancestry_of cls candidates) = card (backref cls ` set candidates)"
proof -
  have d: "distinct (map fst (ancestry_of cls candidates))"
    and s: "set (map fst (ancestry_of cls candidates)) = backref cls ` set candidates"
    using ancestry_of_props[of cls candidates] by blast+
  have "card (set (map fst (ancestry_of cls candidates)))
          = length (map fst (ancestry_of cls candidates))"
    using d by (rule distinct_card)
  then show ?thesis unfolding s by simp
qed

lemma ancestry_of_Nil: "ancestry_of cls candidates = [] \<longleftrightarrow> candidates = []"
proof -
  have "ancestry_of cls candidates = [] \<longleftrightarrow> length (ancestry_of cls candidates) = 0" by simp
  also have "\<dots> \<longleftrightarrow> backref cls ` set candidates = {}"
    unfolding ancestry_of_length by simp
  finally show ?thesis by simp
qed

text \<open>
  Claim C4. The candidates inherited for a key are reduced to one per defining owner:
  the owners of \<open>ancestry\<close> are pairwise different, they are the owners of the candidates,
  and every entry is a candidate filed under its own owner. So for \<open>D\<close> with bases
  \<open>[Ba, Bb]\<close> that both expose the same member \<open>m\<close>, and no local entry, the round takes
  the pure-inheritance branch with the single candidate \<open>m\<close>: the only call is
  \<open>inherit_pure\<close> on \<open>m\<close>, and where that shares the member, \<open>m\<close> itself is filed in the
  full collection and nothing in the local one. A round that does not raise calls
  \<open>derive_from_root\<close> exactly when there is no local entry and the candidates have two
  or more different owners.
\<close>

theorem diamond_pure_inheritance:
  "distinct (map fst (ancestry_of cls candidates)) \<and>
   set (map fst (ancestry_of cls candidates)) = backref cls ` set candidates \<and>
   (\<forall>p\<in>set (ancestry_of cls candidates). snd p \<in> set candidates \<and> backref cls (snd p) = fst p) \<and>
   (attr_of Ba key = Some m \<and> attr_of Bb key = Some m \<and> local_classrefs key = None \<longrightarrow>
      merge_classref_key cls req dctx D attr_of [Ba, Bb] local_classrefs key =
        Inr (Some \<lparr>km_merged = Some (snd (inherit_pure cls m D)),
                   km_pure_inheritance = fst (inherit_pure cls m D),
                   km_inherited = [m], km_calls = [InheritPure m D]\<rparr>)) \<and>
   (attr_of Ba key = Some m \<and> attr_of Bb key = Some m \<and> local_classrefs key = None \<and>
    inherit_pure cls m D = (True, m) \<longrightarrow>
      merge_classref_dict cls req dctx D attr_of [Ba, Bb] [key] classrefs local_classrefs [] =
        Inr (classrefs(key \<mapsto> m), local_classrefs, [InheritPure m D])) \<and>
   (merge_classref_key cls req dctx self attr_of bases local_classrefs key = Inr (Some r) \<longrightarrow>
      ((\<exists>s k bs. DeriveFromRoot s k bs \<in> set (km_calls r)) \<longleftrightarrow>
       local_classrefs key = None \<and> 2 \<le> card (backref cls ` set (base_refs attr_of bases key))))"
proof (intro conjI impI)
  show "distinct (map fst (ancestry_of cls candidates))"
    and "set (map fst (ancestry_of cls candidates)) = backref cls ` set candidates"
    and "\<forall>p\<in>set (ancestry_of cls candidates). snd p \<in> set candidates \<and> backref cls (snd p) = fst p"
    using ancestry_of_props[of cls candidates] by blast+
next
  assume h: "attr_of Ba key = Some m \<and> attr_of Bb key = Some m \<and> local_classrefs key = None"
  then have a: "ancestry_of cls (base_refs attr_of [Ba, Bb] key) = [(backref cls m, m)]"
    by (simp add: base_refs_def ancestry_of_def)
  show "merge_classref_key cls req dctx D attr_of [Ba, Bb] local_classrefs key =
        Inr (Some \<lparr>km_merged = Some (snd (inherit_pure cls m D)),
                   km_pure_inheritance = fst (inherit_pure cls m D),
                   km_inherited = [m], km_calls = [InheritPure m D]\<rparr>)"
    using h by (simp add: merge_classref_key_def a)
next
  assume h: "attr_of Ba key = Some m \<and> attr_of Bb key = Some m \<and> local_classrefs key = None \<and>
    inherit_pure cls m D = (True, m)"
  then have a: "ancestry_of cls (base_refs attr_of [Ba, Bb] key) = [(backref cls m, m)]"
    by (simp add: base_refs_def ancestry_of_def)
  have "merge_classref_key cls req dctx D attr_of [Ba, Bb] local_classrefs key =
        Inr (Some \<lparr>km_merged = Some m, km_pure_inheritance = True,
                   km_inherited = [m], km_calls = [InheritPure m D]\<rparr>)"
    using h by (simp add: merge_classref_key_def a)
  then show "merge_classref_dict cls req dctx D attr_of [Ba, Bb] [key] classrefs local_classrefs [] =
        Inr (classrefs(key \<mapsto> m), local_classrefs, [InheritPure m D])"
    by simp
next
  assume r: "merge_classref_key cls req dctx self attr_of bases local_classrefs key = Inr (Some r)"
  let ?inh = "map snd (ancestry_of cls (base_refs attr_of bases key))"
  have len: "length ?inh = card (backref cls ` set (base_refs attr_of bases key))"
    by (simp add: ancestry_of_length)
  show "(\<exists>s k bs. DeriveFromRoot s k bs \<in> set (km_calls r)) \<longleftrightarrow>
       local_classrefs key = None \<and> 2 \<le> card (backref cls ` set (base_refs attr_of bases key))"
  proof (cases "local_classrefs key")
    case None
    then show ?thesis using r unfolding len[symmetric]
      by (auto simp: merge_classref_key_def Let_def split: if_splits)
  next
    case (Some l)
    then show ?thesis using r
      by (auto simp: merge_classref_key_def Let_def split: if_splits)
  qed
qed

theorem diamond_pure_inheritance_witness:
  "sample_attr ''B1'' ''m'' = Some (''A'', ''m'', False) \<and>
   sample_attr ''B2'' ''m'' = Some (''A'', ''m'', False) \<and>
   inherit_pure sample_cls (''A'', ''m'', False) ''D'' = (True, (''A'', ''m'', False)) \<and>
   (case merge_classref_dict sample_cls True (Some True) ''D'' sample_attr [''B1'', ''B2'']
           [''m''] Map.empty Map.empty [] of
      Inl e \<Rightarrow> False
    | Inr (classrefs, local_classrefs, calls) \<Rightarrow>
        classrefs ''m'' = Some (''A'', ''m'', False) \<and> local_classrefs ''m'' = None \<and>
        calls = [InheritPure (''A'', ''m'', False) ''D'']) \<and>
   merge_classref_key sample_cls True (Some True) ''D'' sample_attr [''B1'', ''B2'']
       Map.empty ''m''
     = Inr (Some \<lparr>km_merged = Some (''A'', ''m'', False), km_pure_inheritance = True,
                  km_inherited = [(''A'', ''m'', False)],
                  km_calls = [InheritPure (''A'', ''m'', False) ''D'']\<rparr>) \<and>
   (''A'', ''A'', ''m'', False)
     \<in> set (ancestry_of sample_cls [(''A'', ''m'', False), (''A'', ''m'', False)]) \<and>
   merge_classref_key sample_cls True (Some True) ''D'' sample_attr [''X'', ''Y''] Map.empty ''m''
     = Inr (Some \<lparr>km_merged = Some (''D'', ''m'', True), km_pure_inheritance = False,
                  km_inherited = [(''X'', ''m'', False), (''Y'', ''m'', False)],
                  km_calls = [DeriveFromRoot ''D'' ''m''
                                [(''X'', ''m'', False), (''Y'', ''m'', False)]]\<rparr>) \<and>
   2 \<le> card (backref sample_cls ` set (base_refs sample_attr [''X'', ''Y''] ''m''))"
proof -
  let ?am = "(''A'', ''m'', False)"
  let ?r = "\<lparr>km_merged = Some (''D'', ''m'', True), km_pure_inheritance = False,
                  km_inherited = [(''X'', ''m'', False), (''Y'', ''m'', False)],
                  km_calls = [DeriveFromRoot ''D'' ''m''
                                [(''X'', ''m'', False), (''Y'', ''m'', False)]]\<rparr>"
  have h1: "sample_attr ''B1'' ''m'' = Some ?am" by (simp add: sample_attr_def)
  have h2: "sample_attr ''B2'' ''m'' = Some ?am" by (simp add: sample_attr_def)
  have h3: "inherit_pure sample_cls ?am ''D'' = (True, ?am)" by (simp add: sample_cls_def)
  have h4: "(Map.empty :: string \<rightharpoonup> string \<times> string \<times> bool) ''m'' = None" by simp
  note T = diamond_pure_inheritance
    [where cls = sample_cls and candidates = "[?am, ?am]" and attr_of = sample_attr
       and Ba = "''B1''" and Bb = "''B2''" and key = "''m''" and m = ?am
       and local_classrefs = Map.empty and req = True and dctx = "Some True" and D = "''D''"
       and classrefs = Map.empty and self = "''D''" and bases = "[''X'', ''Y'']" and r = ?r]
  have k: "merge_classref_key sample_cls True (Some True) ''D'' sample_attr [''B1'', ''B2'']
       Map.empty ''m''
     = Inr (Some \<lparr>km_merged = Some ?am, km_pure_inheritance = True,
                  km_inherited = [?am], km_calls = [InheritPure ?am ''D'']\<rparr>)"
    using T h1 h2 h3 by simp
  have d: "merge_classref_dict sample_cls True (Some True) ''D'' sample_attr [''B1'', ''B2'']
           [''m''] Map.empty Map.empty []
        = Inr (Map.empty(''m'' \<mapsto> ?am), Map.empty, [InheritPure ?am ''D''])"
    using T h1 h2 h3 by simp
  have a: "(''A'', ?am) \<in> set (ancestry_of sample_cls [?am, ?am])"
    by (simp add: ancestry_of_def sample_cls_def)
  have x: "merge_classref_key sample_cls True (Some True) ''D'' sample_attr [''X'', ''Y''] Map.empty ''m''
     = Inr (Some ?r)"
    by code_simp
  have c: "2 \<le> card (backref sample_cls ` set (base_refs sample_attr [''X'', ''Y''] ''m''))"
    using T x by simp
  show ?thesis unfolding d using h1 h2 h3 k a x c by simp
qed

text \<open>
  Claim C8, amended. Let a local member exist under the key and at least one base
  define the key. If the collection requires the explicit declaration, the merge runs
  in a declarative delta context (\<open>dctx\<close> is given and \<open>dctx.declarative\<close> holds) and the
  local member is not declared inherited, the round, and with it the merge, raises the
  definition error that names the owners of the inherited definitions. If the local
  member is declared inherited, or the declaration is not required, or there is no
  declarative delta context, the merge of the key succeeds: the local member is
  finalized with the inherited definitions as its bases and is filed in both
  collections.
\<close>

theorem explicit_inherit_enforced:
  "(local_classrefs key = Some l \<and> base_refs attr_of bases key \<noteq> [] \<and>
    \<not> declared_inherited cls l \<longrightarrow>
      merge_classref_key cls True (Some True) self attr_of bases local_classrefs key
        = Inl (MustDeclareInherited self l
                 (map fst (ancestry_of cls (base_refs attr_of bases key)))) \<and>
      merge_classref_dict cls True (Some True) self attr_of bases (key # rest)
          classrefs local_classrefs calls
        = Inl (MustDeclareInherited self l
                 (map fst (ancestry_of cls (base_refs attr_of bases key)))) \<and>
      set (map fst (ancestry_of cls (base_refs attr_of bases key)))
        = backref cls ` set (base_refs attr_of bases key)) \<and>
   (local_classrefs key = Some l \<and> base_refs attr_of bases key \<noteq> [] \<and>
    (declared_inherited cls l \<or> \<not> req \<or> dctx = None \<or> dctx = Some False) \<longrightarrow>
      merge_classref_key cls req dctx self attr_of bases local_classrefs key
        = Inr (Some \<lparr>km_merged = Some l, km_pure_inheritance = False,
                     km_inherited = map snd (ancestry_of cls (base_refs attr_of bases key)),
                     km_calls = [AcquireAndFinalize l
                        (map snd (ancestry_of cls (base_refs attr_of bases key)))]\<rparr>) \<and>
      merge_classref_dict cls req dctx self attr_of bases [key] classrefs local_classrefs []
        = Inr (classrefs(key \<mapsto> l), local_classrefs(key \<mapsto> l),
               [AcquireAndFinalize l
                  (map snd (ancestry_of cls (base_refs attr_of bases key)))]))"
proof (intro conjI impI)
  assume h: "local_classrefs key = Some l \<and> base_refs attr_of bases key \<noteq> [] \<and>
    \<not> declared_inherited cls l"
  then have ne: "ancestry_of cls (base_refs attr_of bases key) \<noteq> []"
    by (simp add: ancestry_of_Nil)
  show k: "merge_classref_key cls True (Some True) self attr_of bases local_classrefs key
        = Inl (MustDeclareInherited self l
                 (map fst (ancestry_of cls (base_refs attr_of bases key))))"
    using h ne by (simp add: merge_classref_key_def)
  show "merge_classref_dict cls True (Some True) self attr_of bases (key # rest)
          classrefs local_classrefs calls
        = Inl (MustDeclareInherited self l
                 (map fst (ancestry_of cls (base_refs attr_of bases key))))"
    by (simp add: k)
  show "set (map fst (ancestry_of cls (base_refs attr_of bases key)))
        = backref cls ` set (base_refs attr_of bases key)"
    using ancestry_of_props[of cls "base_refs attr_of bases key"] by blast
next
  assume h: "local_classrefs key = Some l \<and> base_refs attr_of bases key \<noteq> [] \<and>
    (declared_inherited cls l \<or> \<not> req \<or> dctx = None \<or> dctx = Some False)"
  then have ne: "ancestry_of cls (base_refs attr_of bases key) \<noteq> []"
    by (simp add: ancestry_of_Nil)
  show k: "merge_classref_key cls req dctx self attr_of bases local_classrefs key
        = Inr (Some \<lparr>km_merged = Some l, km_pure_inheritance = False,
                     km_inherited = map snd (ancestry_of cls (base_refs attr_of bases key)),
                     km_calls = [AcquireAndFinalize l
                        (map snd (ancestry_of cls (base_refs attr_of bases key)))]\<rparr>)"
    using h ne by (auto simp: merge_classref_key_def Let_def)
  show "merge_classref_dict cls req dctx self attr_of bases [key] classrefs local_classrefs []
        = Inr (classrefs(key \<mapsto> l), local_classrefs(key \<mapsto> l),
               [AcquireAndFinalize l
                  (map snd (ancestry_of cls (base_refs attr_of bases key)))])"
    using ne by (simp add: k)
qed

theorem explicit_inherit_enforced_witness:
  "base_refs sample_attr [''A''] ''m'' = [(''A'', ''m'', False)] \<and>
   merge_classref_dict sample_cls True (Some True) ''D'' sample_attr [''A''] [''m'', ''n'']
       [''m'' \<mapsto> (''D'', ''m'', False)] [''m'' \<mapsto> (''D'', ''m'', False)] []
     = Inl (MustDeclareInherited ''D'' (''D'', ''m'', False) [''A'']) \<and>
   (case merge_classref_dict sample_cls True (Some True) ''D'' sample_attr [''A''] [''m'']
           [''m'' \<mapsto> (''D'', ''m'', True)] [''m'' \<mapsto> (''D'', ''m'', True)] [] of
      Inl e \<Rightarrow> False
    | Inr (classrefs, local_classrefs, calls) \<Rightarrow>
        classrefs ''m'' = Some (''D'', ''m'', True) \<and>
        local_classrefs ''m'' = Some (''D'', ''m'', True) \<and>
        calls = [AcquireAndFinalize (''D'', ''m'', True) [(''A'', ''m'', False)]])"
proof -
  let ?l = "(''D'', ''m'', False)" and ?li = "(''D'', ''m'', True)"
  have b: "base_refs sample_attr [''A''] ''m'' = [(''A'', ''m'', False)]"
    by (simp add: base_refs_def sample_attr_def)
  have a: "ancestry_of sample_cls [(''A'', ''m'', False)] = [(''A'', ''A'', ''m'', False)]"
    by (simp add: ancestry_of_def sample_cls_def)
  have n: "\<not> declared_inherited sample_cls ?l" and i: "declared_inherited sample_cls ?li"
    by (simp_all add: sample_cls_def)
  have "merge_classref_dict sample_cls True (Some True) ''D'' sample_attr [''A''] [''m'', ''n'']
       [''m'' \<mapsto> ?l] [''m'' \<mapsto> ?l] []
     = Inl (MustDeclareInherited ''D'' ?l [''A''])"
    using explicit_inherit_enforced
      [where local_classrefs = "[''m'' \<mapsto> ?l]" and key = "''m''" and l = ?l
         and attr_of = sample_attr and bases = "[''A'']" and cls = sample_cls
         and self = "''D''" and rest = "[''n'']" and classrefs = "[''m'' \<mapsto> ?l]"
         and calls = "[]", THEN conjunct1]
      n by (simp add: b a)
  moreover have "merge_classref_dict sample_cls True (Some True) ''D'' sample_attr [''A''] [''m'']
           [''m'' \<mapsto> ?li] [''m'' \<mapsto> ?li] []
     = Inr ([''m'' \<mapsto> ?li], [''m'' \<mapsto> ?li],
            [AcquireAndFinalize ?li [(''A'', ''m'', False)]])"
    using explicit_inherit_enforced
      [where local_classrefs = "[''m'' \<mapsto> ?li]" and key = "''m''" and l = ?li
         and attr_of = sample_attr and bases = "[''A'']" and cls = sample_cls
         and self = "''D''" and req = True and dctx = "Some True"
         and classrefs = "[''m'' \<mapsto> ?li]", THEN conjunct2]
      i by (simp add: b a)
  ultimately show ?thesis using b by simp
qed

text \<open>
  Claim C8 as stated fails without a declarative delta context: \<open>D\<close> defines \<open>m\<close>
  locally, not declared inherited, its base \<open>A\<close> defines \<open>m\<close> too and the declaration is
  required; with \<open>dctx = None\<close>, or with \<open>dctx.declarative\<close> false, the guard of line 541
  lets the merge succeed.
\<close>

theorem undeclared_override_accepted:
  "merge_classref_key sample_cls True None ''D'' sample_attr [''A'']
       [''m'' \<mapsto> (''D'', ''m'', False)] ''m''
     = Inr (Some \<lparr>km_merged = Some (''D'', ''m'', False), km_pure_inheritance = False,
                  km_inherited = [(''A'', ''m'', False)],
                  km_calls = [AcquireAndFinalize (''D'', ''m'', False) [(''A'', ''m'', False)]]\<rparr>) \<and>
   merge_classref_key sample_cls True (Some False) ''D'' sample_attr [''A'']
       [''m'' \<mapsto> (''D'', ''m'', False)] ''m''
     = Inr (Some \<lparr>km_merged = Some (''D'', ''m'', False), km_pure_inheritance = False,
                  km_inherited = [(''A'', ''m'', False)],
                  km_calls = [AcquireAndFinalize (''D'', ''m'', False) [(''A'', ''m'', False)]]\<rparr>)"
  by code_simp

section \<open>Properties of the deletion of a referenced member\<close>































text \<open>
  Between \<open>_delete_innards\<close> and the end of the owner's command the key is absent from
  the descendants: both loops over the descendants only delete, and it is the re-merge
  of \<open>_alter_finalize\<close> that files the ancestor's definition.
\<close>

lemma key_absent_before_finalize:
  "(case delete_innards (\<lambda>s. override_descendants) override_schema ''P'' ''m'' of
      Inl e \<Rightarrow> False
    | Inr schema' \<Rightarrow>
        r_attr schema' ''P'' ''m'' = Some (''G'', ''m'') \<and>
        r_attr schema' ''C'' ''m'' = None)"
  by code_simp

end
